theory Spec2Isabelle
  imports Complex_Main "HOL-Library.Monad_Syntax" "HOL-Library.Multiset"
begin

section \<open>JavaScript strings\<close>

text \<open>
  A JavaScript string is a sequence of UTF-16 code units. The separators of
  \<open>parseArtistTrack\<close> (U+2013, U+2014) and the characters that \<open>normalize\<close> removes lie
  outside ASCII, so a string is modelled as the list of its code units, each a natural
  number. \<open>js\<close> reads an ASCII literal as such a list.
\<close>

type_synonym jsstr = "nat list"

definition js :: "string \<Rightarrow> jsstr" where
  "js s = map of_char s"

text \<open>
  The class \<open>\s\<close> of a JavaScript regular expression, which is also the set that
  \<open>String.prototype.trim\<close> strips: TAB, LF, VT, FF, CR, SP, NBSP, U+1680, U+2000 to U+200A,
  U+2028, U+2029, U+202F, U+205F, U+3000 and U+FEFF.
\<close>

definition isWs :: "nat \<Rightarrow> bool" where
  "isWs c \<longleftrightarrow>
     (9 \<le> c \<and> c \<le> 13) \<or> c = 32 \<or> c = 160 \<or> c = 5760 \<or> (8192 \<le> c \<and> c \<le> 8202) \<or>
     c = 8232 \<or> c = 8233 \<or> c = 8239 \<or> c = 8287 \<or> c = 12288 \<or> c = 65279"

definition isDigit :: "nat \<Rightarrow> bool" where
  "isDigit c \<longleftrightarrow> 48 \<le> c \<and> c \<le> 57"

definition isLower :: "nat \<Rightarrow> bool" where
  "isLower c \<longleftrightarrow> 97 \<le> c \<and> c \<le> 122"

definition isUpper :: "nat \<Rightarrow> bool" where
  "isUpper c \<longleftrightarrow> 65 \<le> c \<and> c \<le> 90"

text \<open>
  \<open>String.prototype.toLowerCase\<close>, one code unit at a time. The ASCII capitals and the
  Latin-1 capitals move by 32. Two code units outside ASCII lower to an ASCII letter:
  U+0130 becomes \<open>i\<close> followed by U+0307, and the Kelvin sign U+212A becomes \<open>k\<close>. Every
  other case pair of Unicode takes a code unit that is neither ASCII nor white space to
  code units that are neither, and these are left where they are: the functions below
  only ever compare against ASCII and white space.
\<close>

definition lowerUnit :: "nat \<Rightarrow> jsstr" where
  "lowerUnit c =
     (if isUpper c then [c + 32]
      else if c = 304 then [105, 775]
      else if c = 8490 then [107]
      else if 192 \<le> c \<and> c \<le> 222 \<and> c \<noteq> 215 then [c + 32]
      else [c])"

definition toLowerCase :: "jsstr \<Rightarrow> jsstr" where
  "toLowerCase s = concat (map lowerUnit s)"

definition trim :: "jsstr \<Rightarrow> jsstr" where
  "trim s = rev (dropWhile isWs (rev (dropWhile isWs s)))"

section \<open>String helpers\<close>

text \<open>\<open>.replace(/[^a-z0-9\s]/g, "")\<close>: every code unit outside the class is deleted.\<close>

definition keptUnit :: "nat \<Rightarrow> bool" where
  "keptUnit c \<longleftrightarrow> isLower c \<or> isDigit c \<or> isWs c"

definition stripOther :: "jsstr \<Rightarrow> jsstr" where
  "stripOther s = filter keptUnit s"

text \<open>\<open>.replace(/\s+/g, " ")\<close>: every maximal run of white space becomes one space.\<close>

function collapseWs :: "jsstr \<Rightarrow> jsstr" where
  "collapseWs [] = []"
| "collapseWs (c # cs) =
     (if isWs c then 32 # collapseWs (dropWhile isWs cs) else c # collapseWs cs)"
  by pat_completeness auto
termination
  by (relation "measure length") (auto simp: le_imp_less_Suc length_dropWhile_le)

text \<open>
  \<open>normalize(s)\<close>. The argument is \<open>None\<close> for \<open>null\<close> and \<open>undefined\<close>, which
  \<open>(s || "")\<close> turns into the empty string, as it does the empty string itself.
\<close>

definition orEmpty :: "jsstr option \<Rightarrow> jsstr" where
  "orEmpty s = (case s of None \<Rightarrow> [] | Some x \<Rightarrow> x)"

definition normalize :: "jsstr option \<Rightarrow> jsstr" where
  "normalize s = trim (collapseWs (stripOther (toLowerCase (orEmpty s))))"

text \<open>No two spaces side by side.\<close>

fun singleSpaces :: "jsstr \<Rightarrow> bool" where
  "singleSpaces (a # b # r) = (\<not> (a = 32 \<and> b = 32) \<and> singleSpaces (b # r))"
| "singleSpaces [a] = True"
| "singleSpaces [] = True"

text \<open>
  The shape of a normalized string: lower-case letters, digits and spaces only, no two
  spaces side by side, no space at either end.
\<close>

definition normalized :: "jsstr \<Rightarrow> bool" where
  "normalized t \<longleftrightarrow>
     (\<forall>c \<in> set t. isLower c \<or> isDigit c \<or> c = 32) \<and> singleSpaces t \<and>
     (t \<noteq> [] \<longrightarrow> hd t \<noteq> 32 \<and> last t \<noteq> 32)"

text \<open>The definitions that evaluate a string function on a literal.\<close>

lemmas string_eval =
  js_def isWs_def isDigit_def isLower_def isUpper_def lowerUnit_def toLowerCase_def trim_def
  keptUnit_def stripOther_def orEmpty_def normalize_def

subsection \<open>Facts about the stages of normalize\<close>

lemma isWs_32 [simp]: "isWs 32"
  by (simp add: isWs_def)

lemma alnum_not_ws: "isLower c \<or> isDigit c \<Longrightarrow> \<not> isWs c"
  by (auto simp: isLower_def isDigit_def isWs_def)

lemma collapseWs_units:
  "c \<in> set (collapseWs s) \<Longrightarrow> c = 32 \<or> (c \<in> set s \<and> \<not> isWs c)"
proof (induction s rule: collapseWs.induct)
  case 1
  then show ?case by simp
next
  case (2 d ds)
  then show ?case
    by (auto split: if_splits dest: set_dropWhileD)
qed

lemma collapseWs_head:
  "collapseWs s \<noteq> [] \<Longrightarrow> hd (collapseWs s) = 32 \<Longrightarrow> s \<noteq> [] \<and> isWs (hd s)"
  by (cases s) (auto split: if_splits)

lemma dropWhile_head: "dropWhile P xs \<noteq> [] \<Longrightarrow> \<not> P (hd (dropWhile P xs))"
  using hd_dropWhile by blast

lemma singleSpaces_Cons:
  "singleSpaces (a # t) \<longleftrightarrow> (t = [] \<or> \<not> (a = 32 \<and> hd t = 32)) \<and> singleSpaces t"
  by (cases t) auto

lemma collapseWs_singleSpaces: "singleSpaces (collapseWs s)"
proof (induction s rule: collapseWs.induct)
  case 1
  then show ?case by simp
next
  case (2 c cs)
  show ?case
  proof (cases "isWs c")
    case True
    have "collapseWs (dropWhile isWs cs) = [] \<or> hd (collapseWs (dropWhile isWs cs)) \<noteq> 32"
      using collapseWs_head [of "dropWhile isWs cs"] dropWhile_head [of isWs cs] by blast
    with True 2 show ?thesis
      by (simp add: singleSpaces_Cons)
  next
    case False
    then have "c \<noteq> 32" by auto
    with False 2 show ?thesis
      by (simp add: singleSpaces_Cons)
  qed
qed

lemma singleSpaces_append:
  "singleSpaces (xs @ ys) \<Longrightarrow> singleSpaces xs \<and> singleSpaces ys"
proof (induction xs rule: singleSpaces.induct)
  case (1 a b r)
  then show ?case by auto
next
  case (2 a)
  then show ?case by (cases ys) auto
next
  case 3
  then show ?case by simp
qed

lemma trim_split: "\<exists>pre post. s = pre @ trim s @ post"
proof -
  have a: "s = takeWhile isWs s @ dropWhile isWs s" by simp
  have "rev (dropWhile isWs s) =
          takeWhile isWs (rev (dropWhile isWs s)) @ dropWhile isWs (rev (dropWhile isWs s))"
    by simp
  then have "dropWhile isWs s = trim s @ rev (takeWhile isWs (rev (dropWhile isWs s)))"
    unfolding trim_def by (metis rev_append rev_rev_ident)
  with a show ?thesis by metis
qed

lemma trim_singleSpaces: "singleSpaces s \<Longrightarrow> singleSpaces (trim s)"
proof -
  assume s: "singleSpaces s"
  obtain pre post where "s = pre @ trim s @ post" using trim_split by blast
  with s have "singleSpaces (pre @ trim s @ post)" by simp
  then show ?thesis using singleSpaces_append by blast
qed

lemma trim_units: "set (trim s) \<subseteq> set s"
  by (auto simp: trim_def dest!: set_dropWhileD)

lemma trim_ends: "trim s \<noteq> [] \<Longrightarrow> \<not> isWs (hd (trim s)) \<and> \<not> isWs (last (trim s))"
proof -
  assume ne: "trim s \<noteq> []"
  let ?d = "dropWhile isWs s"
  let ?e = "dropWhile isWs (rev ?d)"
  from ne have e: "?e \<noteq> []" unfolding trim_def rev_is_Nil_conv .
  then have "\<not> isWs (hd ?e)" by (rule dropWhile_head)
  with e have l: "\<not> isWs (last (trim s))"
    by (simp add: trim_def last_rev)
  have "?d = [] \<Longrightarrow> ?e = []" by (metis dropWhile.simps(1) rev.simps(1))
  with e have d: "?d \<noteq> []" by blast
  then have hd: "\<not> isWs (hd ?d)" by (rule dropWhile_head)
  have "\<exists>post. ?d = trim s @ post"
  proof -
    have "rev ?d = takeWhile isWs (rev ?d) @ ?e" by simp
    then have "?d = rev ?e @ rev (takeWhile isWs (rev ?d))"
      by (metis rev_append rev_rev_ident)
    then show ?thesis by (auto simp: trim_def)
  qed
  then obtain post where "?d = trim s @ post" by blast
  with ne have "hd ?d = hd (trim s)" by (metis hd_append2)
  with hd l show ?thesis by simp
qed

lemma normalize_normalized: "normalized (normalize s)"
proof -
  let ?a = "stripOther (toLowerCase (orEmpty s))"
  have units: "\<forall>c \<in> set (normalize s). isLower c \<or> isDigit c \<or> c = 32"
  proof
    fix c assume "c \<in> set (normalize s)"
    then have "c \<in> set (collapseWs ?a)"
      using trim_units by (auto simp: normalize_def)
    then have "c = 32 \<or> (c \<in> set ?a \<and> \<not> isWs c)" by (rule collapseWs_units)
    then show "isLower c \<or> isDigit c \<or> c = 32"
      by (auto simp: stripOther_def keptUnit_def)
  qed
  have ss: "singleSpaces (normalize s)"
    unfolding normalize_def by (rule trim_singleSpaces) (rule collapseWs_singleSpaces)
  have ends: "normalize s \<noteq> [] \<longrightarrow> hd (normalize s) \<noteq> 32 \<and> last (normalize s) \<noteq> 32"
    unfolding normalize_def using trim_ends isWs_32 by metis
  from units ss ends show ?thesis by (simp add: normalized_def)
qed

lemma lower_fixed:
  "\<forall>c \<in> set t. isLower c \<or> isDigit c \<or> c = 32 \<Longrightarrow> toLowerCase t = t"
proof (induction t)
  case Nil
  then show ?case by (simp add: toLowerCase_def)
next
  case (Cons a t)
  then have "lowerUnit a = [a]"
    by (auto simp: lowerUnit_def isLower_def isDigit_def isUpper_def)
  with Cons show ?case by (simp add: toLowerCase_def)
qed

lemma strip_fixed:
  "\<forall>c \<in> set t. isLower c \<or> isDigit c \<or> c = 32 \<Longrightarrow> stripOther t = t"
  by (induction t) (auto simp: stripOther_def keptUnit_def)

lemma collapse_fixed:
  "\<forall>c \<in> set t. isLower c \<or> isDigit c \<or> c = 32 \<Longrightarrow> singleSpaces t \<Longrightarrow> collapseWs t = t"
proof (induction t rule: collapseWs.induct)
  case 1
  then show ?case by simp
next
  case (2 c cs)
  show ?case
  proof (cases "isWs c")
    case True
    with 2 have c: "c = 32" using alnum_not_ws by auto
    have "dropWhile isWs cs = cs"
    proof (cases cs)
      case Nil
      then show ?thesis by simp
    next
      case (Cons d ds)
      with 2 c have "d \<noteq> 32" by auto
      moreover from 2 Cons have "isLower d \<or> isDigit d \<or> d = 32" by auto
      ultimately have "\<not> isWs d" using alnum_not_ws by auto
      with Cons show ?thesis by simp
    qed
    with 2 True c show ?thesis by (simp add: singleSpaces_Cons)
  next
    case False
    with 2 show ?thesis by (simp add: singleSpaces_Cons)
  qed
qed

lemma trim_fixed:
  assumes "t \<noteq> [] \<longrightarrow> \<not> isWs (hd t) \<and> \<not> isWs (last t)"
  shows "trim t = t"
proof (cases t)
  case Nil
  then show ?thesis by (simp add: trim_def)
next
  case (Cons a r)
  with assms have a: "\<not> isWs a" and l: "\<not> isWs (last t)" by auto
  from a Cons have d: "dropWhile isWs t = t" by simp
  from Cons have "rev t \<noteq> []" by simp
  moreover have "\<not> isWs (hd (rev t))" using l by (metis hd_rev)
  ultimately have "dropWhile isWs (rev t) = rev t" by (cases "rev t") auto
  with d show ?thesis by (simp add: trim_def)
qed

lemma normalized_fixed: "normalized t \<Longrightarrow> normalize (Some t) = t"
proof -
  assume n: "normalized t"
  then have u: "\<forall>c \<in> set t. isLower c \<or> isDigit c \<or> c = 32"
    and ss: "singleSpaces t" by (auto simp: normalized_def)
  have ends: "t \<noteq> [] \<longrightarrow> \<not> isWs (hd t) \<and> \<not> isWs (last t)"
  proof
    assume ne: "t \<noteq> []"
    with n have "hd t \<noteq> 32" "last t \<noteq> 32" by (auto simp: normalized_def)
    moreover from ne u have "isLower (hd t) \<or> isDigit (hd t) \<or> hd t = 32"
      "isLower (last t) \<or> isDigit (last t) \<or> last t = 32" by auto
    ultimately show "\<not> isWs (hd t) \<and> \<not> isWs (last t)" using alnum_not_ws by blast
  qed
  show ?thesis
    by (simp add: normalize_def orEmpty_def lower_fixed [OF u] strip_fixed [OF u]
        collapse_fixed [OF u ss] trim_fixed [OF ends])
qed


subsection \<open>fuzzyNorm\<close>

text \<open>The class \<open>\w\<close>: letters, digits and the underscore. \<open>\b\<close> holds between two
  positions of which exactly one holds a \<open>\w\<close> code unit; the ends of the string count
  as not \<open>\w\<close>.\<close>

definition isWordCh :: "nat \<Rightarrow> bool" where
  "isWordCh c \<longleftrightarrow> isUpper c \<or> isLower c \<or> isDigit c \<or> c = 95"

fun startsWith :: "jsstr \<Rightarrow> jsstr \<Rightarrow> bool" where
  "startsWith [] s = True"
| "startsWith (p # ps) [] = False"
| "startsWith (p # ps) (c # cs) = (p = c \<and> startsWith ps cs)"

definition nextIsWord :: "jsstr \<Rightarrow> bool" where
  "nextIsWord r \<longleftrightarrow> (case r of [] \<Rightarrow> False | c # _ \<Rightarrow> isWordCh c)"

text \<open>
  \<open>/\bPAT\b/\<close> tried at the head of \<open>s\<close>, for a literal \<open>PAT\<close>; \<open>prevW\<close> says whether
  the code unit before \<open>s\<close> is a \<open>\w\<close>.
\<close>

definition matchWordAt :: "jsstr \<Rightarrow> bool \<Rightarrow> jsstr \<Rightarrow> bool" where
  "matchWordAt pat prevW s \<longleftrightarrow>
     pat \<noteq> [] \<and> prevW \<noteq> isWordCh (hd pat) \<and> startsWith pat s \<and>
     isWordCh (last pat) \<noteq> nextIsWord (drop (length pat) s)"

text \<open>
  \<open>.replace(/\bPAT\b/g, rep)\<close>: the string is scanned from the left; a match is replaced
  and the scan goes on behind it, any other code unit is copied.
\<close>

function replaceWord :: "jsstr \<Rightarrow> jsstr \<Rightarrow> bool \<Rightarrow> jsstr \<Rightarrow> jsstr" where
  "replaceWord pat rep prevW [] = []"
| "replaceWord pat rep prevW (c # cs) =
     (if matchWordAt pat prevW (c # cs)
      then rep @ replaceWord pat rep (isWordCh (last pat)) (drop (length pat) (c # cs))
      else c # replaceWord pat rep (isWordCh c) cs)"
  by pat_completeness auto
termination
  by (relation "measure (\<lambda>(pat, rep, prevW, s). length s)") (auto simp: matchWordAt_def)

definition fuzzyNorm :: "jsstr option \<Rightarrow> jsstr" where
  "fuzzyNorm s =
     trim (collapseWs
       (replaceWord (js ''tha'') (js ''the'') False
       (replaceWord (js ''mid night'') (js ''midnigh'') False
       (replaceWord (js ''midnite'') (js ''midnigh'') False
       (replaceWord (js ''midnight'') (js ''midnigh'') False
       (replaceWord (js ''nite'') (js ''night'') False
       (normalize s)))))))"

subsection \<open>parseArtistTrack\<close>

text \<open>\<open>s.indexOf(sep)\<close>: the first position at which \<open>sep\<close> occurs, \<open>None\<close> for \<open>-1\<close>.\<close>

fun indexOf :: "jsstr \<Rightarrow> jsstr \<Rightarrow> nat option" where
  "indexOf sep [] = (if sep = [] then Some 0 else None)"
| "indexOf sep (c # cs) =
     (if startsWith sep (c # cs) then Some 0 else map_option Suc (indexOf sep cs))"





subsection \<open>wordsContain, computeMedian, tracklistContains\<close>

text \<open>\<open>s.split(" ")\<close>: the pieces between the spaces; the empty string gives one empty
  piece.\<close>

fun splitOn :: "nat \<Rightarrow> jsstr \<Rightarrow> jsstr list" where
  "splitOn d [] = [[]]"
| "splitOn d (c # cs) =
     (if c = d then [] # splitOn d cs
      else (case splitOn d cs of [] \<Rightarrow> [[c]] | w # ws \<Rightarrow> (c # w) # ws))"

fun allWordsIn :: "jsstr list \<Rightarrow> jsstr list \<Rightarrow> bool" where
  "allWordsIn hw [] = True"
| "allWordsIn hw (w # nw) = (if w \<notin> set hw then False else allWordsIn hw nw)"

definition wordsContain :: "jsstr \<Rightarrow> jsstr \<Rightarrow> bool" where
  "wordsContain haystack needle = allWordsIn (splitOn 32 haystack) (splitOn 32 needle)"

text \<open>
  Prices are JavaScript numbers. They are modelled as reals: the decimal a price text
  denotes, without the rounding to a double; \<open>None\<close> is \<open>null\<close>. The mean of the two
  middle prices is exact here, where the source rounds the sum and the half to doubles.
\<close>

definition computeMedian :: "real list \<Rightarrow> real option" where
  "computeMedian sortedArr =
     (let n = length sortedArr in
      if n = 0 then None
      else if n mod 2 = 1 then Some (sortedArr ! (n div 2))
      else Some ((sortedArr ! (n div 2 - 1) + sortedArr ! (n div 2)) / 2))"

text \<open>A tracklist entry of the Discogs API; a missing field is \<open>None\<close>. The field
  \<open>kind\<close> is the source's \<open>type_\<close>, a name that Isabelle does not admit.\<close>

record tracklistEntry =
  kind :: "jsstr option"
  title :: "jsstr option"

text \<open>\<open>t.type_ && t.type_ !== "track"\<close>: the entry is skipped when its kind is set (and
  not the empty string, which is falsy) and is not \<open>track\<close>.\<close>

definition skippedKind :: "tracklistEntry \<Rightarrow> bool" where
  "skippedKind t \<longleftrightarrow>
     (case kind t of None \<Rightarrow> False | Some k \<Rightarrow> k \<noteq> [] \<and> k \<noteq> js ''track'')"

fun tracklistLoop :: "jsstr \<Rightarrow> jsstr \<Rightarrow> bool \<Rightarrow> tracklistEntry list \<Rightarrow> bool" where
  "tracklistLoop needle needleFuzzy isShort [] = False"
| "tracklistLoop needle needleFuzzy isShort (t # ts) =
     (if skippedKind t then tracklistLoop needle needleFuzzy isShort ts
      else if normalize (title t) = [] then tracklistLoop needle needleFuzzy isShort ts
      else if isShort then
        (if normalize (title t) = needle then True
         else tracklistLoop needle needleFuzzy isShort ts)
      else if wordsContain (normalize (title t)) needle \<or>
              wordsContain needle (normalize (title t)) then True
      else if wordsContain (fuzzyNorm (title t)) needleFuzzy \<or>
              wordsContain needleFuzzy (fuzzyNorm (title t)) then True
      else tracklistLoop needle needleFuzzy isShort ts)"

text \<open>\<open>tracklistContains(tracklist, trackName)\<close>; \<open>None\<close> is a \<open>null\<close> or missing
  argument.\<close>

definition tracklistContains :: "tracklistEntry list option \<Rightarrow> jsstr option \<Rightarrow> bool" where
  "tracklistContains tracklist trackName =
     (case tracklist of
        None \<Rightarrow> False
      | Some entries \<Rightarrow>
          if entries = [] \<or> orEmpty trackName = [] then False
          else
            let needle = normalize trackName; needleFuzzy = fuzzyNorm trackName in
            if needle = [] \<or> length needle < 2 then False
            else tracklistLoop needle needleFuzzy (length needle \<le> 3) entries)"

text \<open>The entries of a tracklist that may be absent.\<close>

definition entriesOf :: "tracklistEntry list option \<Rightarrow> tracklistEntry list" where
  "entriesOf tracklist = (case tracklist of None \<Rightarrow> [] | Some es \<Rightarrow> es)"

text \<open>
  The words of a string, said without \<open>split\<close>: \<open>w\<close> is a whole word of \<open>s\<close> when it
  holds no space and occurs in \<open>s\<close> at a position \<open>i\<close> where it starts at the head of \<open>s\<close>
  or behind a space, and ends at the end of \<open>s\<close> or before a space. The empty word is a
  whole word of the empty string, and of a string that starts or ends with a space or
  holds two spaces in a row. \<open>wordSet\<close> is the set of the whole words of a string.
\<close>

definition wholeWordAt :: "jsstr \<Rightarrow> jsstr \<Rightarrow> nat \<Rightarrow> bool" where
  "wholeWordAt w s i \<longleftrightarrow>
     i + length w \<le> length s \<and> take (length w) (drop i s) = w \<and>
     (i = 0 \<or> s ! (i - 1) = 32) \<and> (i + length w = length s \<or> s ! (i + length w) = 32)"

definition wholeWord :: "jsstr \<Rightarrow> jsstr \<Rightarrow> bool" where
  "wholeWord w s \<longleftrightarrow> 32 \<notin> set w \<and> (\<exists>i \<in> {0..length s}. wholeWordAt w s i)"

definition wordSet :: "jsstr \<Rightarrow> jsstr set" where
  "wordSet s = {w. wholeWord w s}"

text \<open>The same with the text before and the text behind the word; \<open>d\<close> is the separator.\<close>

definition wordIn :: "nat \<Rightarrow> jsstr \<Rightarrow> jsstr \<Rightarrow> bool" where
  "wordIn d w s \<longleftrightarrow> d \<notin> set w \<and>
     (\<exists>pre post. s = pre @ w @ post \<and> (pre = [] \<or> last pre = d) \<and> (post = [] \<or> hd post = d))"

subsection \<open>Facts about parseArtistTrack and tracklistContains\<close>

lemma startsWith_take: "startsWith p s \<longleftrightarrow> take (length p) s = p"
  by (induction p s rule: startsWith.induct) auto




lemma normalize_empty: "orEmpty name = [] \<Longrightarrow> normalize name = []"
  by (simp add: normalize_def toLowerCase_def stripOther_def trim_def)

lemma allWordsIn_subset: "allWordsIn hw nw \<longleftrightarrow> set nw \<subseteq> set hw"
  by (induction nw) auto

text \<open>\<open>split(" ")\<close> returns exactly the whole words of the string.\<close>

lemma splitOn_nonempty: "splitOn d s \<noteq> []"
  by (induction s) (auto split: list.splits)

lemma splitOn_none: "d \<notin> set w \<Longrightarrow> splitOn d w = [w]"
  by (induction w) auto

lemma splitOn_first: "d \<notin> set w \<Longrightarrow> splitOn d (w @ d # r) = w # splitOn d r"
  by (induction w) auto

lemma between:
  "wholeWordAt w s i \<longleftrightarrow>
     (\<exists>pre post. s = pre @ w @ post \<and> length pre = i \<and> (pre = [] \<or> last pre = 32) \<and>
        (post = [] \<or> hd post = 32))"
proof
  assume a: "wholeWordAt w s i"
  let ?pre = "take i s" and ?post = "drop (i + length w) s"
  from a have l: "i + length w \<le> length s" and t: "take (length w) (drop i s) = w"
    and b: "i = 0 \<or> s ! (i - 1) = 32" and e: "i + length w = length s \<or> s ! (i + length w) = 32"
    by (auto simp: wholeWordAt_def)
  have "s = ?pre @ take (length w) (drop i s) @ drop (length w) (drop i s)"
    by (simp only: append_take_drop_id)
  with t have s: "s = ?pre @ w @ ?post" by (simp add: add.commute)
  from l have lp: "length ?pre = i" by simp
  have p: "?pre = [] \<or> last ?pre = 32"
  proof (cases "i = 0")
    case True then show ?thesis by simp
  next
    case False
    with l have "?pre \<noteq> []" "length ?pre = i" by auto
    with b False have "last ?pre = 32" by (simp add: last_conv_nth)
    then show ?thesis ..
  qed
  have q: "?post = [] \<or> hd ?post = 32"
  proof (cases "i + length w = length s")
    case True then show ?thesis by simp
  next
    case False
    with e l have "hd ?post = 32" by (simp add: hd_drop_conv_nth)
    then show ?thesis ..
  qed
  from s lp p q show "\<exists>pre post. s = pre @ w @ post \<and> length pre = i \<and> (pre = [] \<or> last pre = 32) \<and>
        (post = [] \<or> hd post = 32)" by blast
next
  assume "\<exists>pre post. s = pre @ w @ post \<and> length pre = i \<and> (pre = [] \<or> last pre = 32) \<and>
        (post = [] \<or> hd post = 32)"
  then obtain pre post where s: "s = pre @ w @ post" and i: "length pre = i"
    and p: "pre = [] \<or> last pre = 32" and q: "post = [] \<or> hd post = 32" by blast
  from s i have 1: "i + length w \<le> length s" "take (length w) (drop i s) = w" by auto
  have 2: "i = 0 \<or> s ! (i - 1) = 32"
  proof (cases "pre = []")
    case True with i show ?thesis by simp
  next
    case False
    with p have "last pre = 32" by simp
    moreover from False i have "0 < i" by auto
    ultimately have "s ! (i - 1) = 32" using False s i by (simp add: last_conv_nth nth_append)
    then show ?thesis ..
  qed
  have 3: "i + length w = length s \<or> s ! (i + length w) = 32"
  proof (cases "post = []")
    case True with s i show ?thesis by simp
  next
    case False
    with q have "hd post = 32" by simp
    with False s i have "s ! (i + length w) = 32" by (simp add: nth_append hd_conv_nth)
    then show ?thesis ..
  qed
  from 1 2 3 show "wholeWordAt w s i" by (simp add: wholeWordAt_def)
qed

lemma wordIn_none: "d \<notin> set s \<Longrightarrow> wordIn d w s \<longleftrightarrow> w = s"
proof
  assume d: "d \<notin> set s" and "wordIn d w s"
  then obtain pre post where s: "s = pre @ w @ post" and p: "pre = [] \<or> last pre = d"
    and q: "post = [] \<or> hd post = d" by (auto simp: wordIn_def)
  have "pre = []"
  proof (rule ccontr)
    assume n: "pre \<noteq> []"
    with p have "d \<in> set pre" using last_in_set by blast
    with s d show False by simp
  qed
  moreover have "post = []"
  proof (rule ccontr)
    assume n: "post \<noteq> []"
    with q have "d \<in> set post" using hd_in_set by blast
    with s d show False by simp
  qed
  ultimately show "w = s" using s by simp
next
  assume "d \<notin> set s" and "w = s"
  then have "d \<notin> set w" "s = [] @ w @ []" by simp_all
  then show "wordIn d w s" unfolding wordIn_def by blast
qed

lemma wordIn_first:
  assumes d: "d \<notin> set w0"
  shows "wordIn d w (w0 @ d # r) \<longleftrightarrow> w = w0 \<or> wordIn d w r"
proof
  assume "w = w0 \<or> wordIn d w r"
  then show "wordIn d w (w0 @ d # r)"
  proof
    assume "w = w0"
    with d have "d \<notin> set w" "w0 @ d # r = [] @ w @ (d # r)" by simp_all
    then show ?thesis unfolding wordIn_def by (metis list.sel(1))
  next
    assume "wordIn d w r"
    then obtain pre post where r: "r = pre @ w @ post" and p: "pre = [] \<or> last pre = d"
      and q: "post = [] \<or> hd post = d" and n: "d \<notin> set w" by (auto simp: wordIn_def)
    from r have "w0 @ d # r = (w0 @ d # pre) @ w @ post" by simp
    moreover from p have "last (w0 @ d # pre) = d" by auto
    ultimately show ?thesis using q n unfolding wordIn_def by blast
  qed
next
  assume "wordIn d w (w0 @ d # r)"
  then obtain pre post where s: "w0 @ d # r = pre @ w @ post" and p: "pre = [] \<or> last pre = d"
    and q: "post = [] \<or> hd post = d" and n: "d \<notin> set w" by (auto simp: wordIn_def)
  from s obtain us where
    "(w0 = pre @ us \<and> us @ d # r = w @ post) \<or> (w0 @ us = pre \<and> d # r = us @ w @ post)"
    by (auto simp: append_eq_append_conv2)
  then show "w = w0 \<or> wordIn d w r"
  proof
    assume a: "w0 = pre @ us \<and> us @ d # r = w @ post"
    have pre: "pre = []"
    proof (rule ccontr)
      assume "pre \<noteq> []"
      with p have "d \<in> set pre" using last_in_set by blast
      with a d show False by simp
    qed
    with a have e: "w0 @ d # r = w @ post" by simp
    then obtain vs where
      "(w0 = w @ vs \<and> vs @ d # r = post) \<or> (w0 @ vs = w \<and> d # r = vs @ post)"
      by (auto simp: append_eq_append_conv2)
    then have "w = w0"
    proof
      assume b: "w0 = w @ vs \<and> vs @ d # r = post"
      have "vs = []"
      proof (rule ccontr)
        assume v: "vs \<noteq> []"
        with b have "hd post = hd vs" "post \<noteq> []" by auto
        with q have "hd vs = d" by simp
        with v have "d \<in> set vs" using hd_in_set by blast
        with b d show False by simp
      qed
      with b show ?thesis by simp
    next
      assume b: "w0 @ vs = w \<and> d # r = vs @ post"
      have "vs = []"
      proof (rule ccontr)
        assume v: "vs \<noteq> []"
        with b have "hd vs = d" by (cases vs) auto
        with v have "d \<in> set vs" using hd_in_set by blast
        with b n show False by auto
      qed
      with b show ?thesis by simp
    qed
    then show ?thesis ..
  next
    assume a: "w0 @ us = pre \<and> d # r = us @ w @ post"
    show ?thesis
    proof (cases us)
      case Nil
      with a have pre: "pre = w0" and e: "d # r = w @ post" by simp_all
      have "w = []"
      proof (rule ccontr)
        assume w: "w \<noteq> []"
        with e have "hd w = d" by (cases w) auto
        with w have "d \<in> set w" using hd_in_set by blast
        with n show False by simp
      qed
      moreover have "w0 = []"
      proof (rule ccontr)
        assume "w0 \<noteq> []"
        with p pre have "d \<in> set w0" using last_in_set by blast
        with d show False by simp
      qed
      ultimately have "w = w0" by simp
      then show ?thesis ..
    next
      case (Cons u us')
      with a have u: "u = d" and r: "r = us' @ w @ post" and pre: "pre = w0 @ d # us'"
        by auto
      from p pre have "us' = [] \<or> last us' = d" by (auto split: if_splits)
      with r q n have "wordIn d w r" unfolding wordIn_def by blast
      then show ?thesis ..
    qed
  qed
qed

lemma splitOn_words: "w \<in> set (splitOn d s) \<longleftrightarrow> wordIn d w s"
proof (induction s rule: length_induct)
  case (1 s)
  show ?case
  proof (cases "d \<in> set s")
    case False
    then show ?thesis by (simp add: splitOn_none wordIn_none)
  next
    case True
    then obtain w0 r where s: "s = w0 @ d # r" and d: "d \<notin> set w0"
      by (auto dest: split_list_first)
    from s have "length r < length s" by simp
    with 1 have "w \<in> set (splitOn d r) \<longleftrightarrow> wordIn d w r" by blast
    with s d show ?thesis by (auto simp: splitOn_first wordIn_first)
  qed
qed

lemma wholeWord_wordIn: "wholeWord w s \<longleftrightarrow> wordIn 32 w s"
proof -
  have "(\<exists>i \<in> {0..length s}. wholeWordAt w s i) \<longleftrightarrow>
      (\<exists>pre post. s = pre @ w @ post \<and> (pre = [] \<or> last pre = 32) \<and> (post = [] \<or> hd post = 32))"
    unfolding between by fastforce
  then show ?thesis by (simp add: wholeWord_def wordIn_def)
qed

lemma wordSet_split: "wordSet s = set (splitOn 32 s)"
  by (auto simp: wordSet_def wholeWord_wordIn splitOn_words)

lemma wordsContain_wordSet: "wordsContain h n \<longleftrightarrow> wordSet n \<subseteq> wordSet h"
  by (simp add: wordsContain_def wordSet_split allWordsIn_subset)

lemma tracklistLoop_short:
  "tracklistLoop needle nf True ts \<longleftrightarrow>
     (\<exists>t \<in> set ts. \<not> skippedKind t \<and> normalize (title t) \<noteq> [] \<and>
        normalize (title t) = needle)"
  by (induction ts) auto

lemma tracklistLoop_long:
  "tracklistLoop needle nf False ts \<longleftrightarrow>
     (\<exists>t \<in> set ts. \<not> skippedKind t \<and> normalize (title t) \<noteq> [] \<and>
        (wordsContain (normalize (title t)) needle \<or>
         wordsContain needle (normalize (title t)) \<or>
         wordsContain (fuzzyNorm (title t)) nf \<or>
         wordsContain nf (fuzzyNorm (title t))))"
  by (induction ts) auto

subsection \<open>Facts about fuzzyNorm\<close>

text \<open>
  A normalized string is a list of words, each a non-empty run of lower-case letters and
  digits, joined by single spaces. On such a string every substitution of \<open>fuzzyNorm\<close>
  acts word by word: \<open>subst\<close> exchanges one word, \<open>mergePair\<close> replaces two words that
  follow each other by one.
\<close>

definition wordOnly :: "jsstr \<Rightarrow> bool" where
  "wordOnly w \<longleftrightarrow> (\<forall>c \<in> set w. isLower c \<or> isDigit c)"

definition wordy :: "jsstr \<Rightarrow> bool" where
  "wordy w \<longleftrightarrow> w \<noteq> [] \<and> wordOnly w"

fun joinSp :: "jsstr list \<Rightarrow> jsstr" where
  "joinSp [] = []"
| "joinSp [w] = w"
| "joinSp (w # v # ws) = w @ 32 # joinSp (v # ws)"

definition subst :: "jsstr \<Rightarrow> jsstr \<Rightarrow> jsstr \<Rightarrow> jsstr" where
  "subst pat rep w = (if w = pat then rep else w)"

fun mergePair :: "jsstr \<Rightarrow> jsstr \<Rightarrow> jsstr \<Rightarrow> jsstr list \<Rightarrow> jsstr list" where
  "mergePair m n rep (a # b # ws) =
     (if a = m \<and> b = n then rep # mergePair m n rep ws else a # mergePair m n rep (b # ws))"
| "mergePair m n rep [a] = [a]"
| "mergePair m n rep [] = []"

declare replaceWord.simps [simp del]

lemma alnum_word: "isLower c \<or> isDigit c \<Longrightarrow> isWordCh c"
  by (auto simp: isWordCh_def)

lemma space_not_word [simp]: "\<not> isWordCh 32"
  by (simp add: isWordCh_def isUpper_def isLower_def isDigit_def)

lemma wordOnly_Cons [simp]: "wordOnly (c # w) \<longleftrightarrow> (isLower c \<or> isDigit c) \<and> wordOnly w"
  by (auto simp: wordOnly_def)

lemma wordOnly_Nil [simp]: "wordOnly []"
  by (simp add: wordOnly_def)

lemma joinSp_Cons: "ws \<noteq> [] \<Longrightarrow> joinSp (w # ws) = w @ 32 # joinSp ws"
  by (cases ws) auto

lemma word_end:
  "wordOnly p \<Longrightarrow> wordOnly w \<Longrightarrow> \<not> nextIsWord r \<Longrightarrow>
   (startsWith p (w @ r) \<and> \<not> nextIsWord (drop (length p) (w @ r))) \<longleftrightarrow> p = w"
proof (induction p w rule: startsWith.induct)
  case (1 s)
  then show ?case
    by (cases s) (auto simp: nextIsWord_def alnum_word)
next
  case (2 p ps)
  then show ?case
    by (cases r) (auto simp: nextIsWord_def alnum_word)
next
  case (3 p ps c cs)
  then show ?case by auto
qed

lemma match_single:
  "wordy pat \<Longrightarrow> wordOnly w \<Longrightarrow> \<not> nextIsWord r \<Longrightarrow>
   matchWordAt pat False (w @ r) \<longleftrightarrow> pat = w"
proof -
  assume p: "wordy pat" and w: "wordOnly w" and r: "\<not> nextIsWord r"
  from p have "isWordCh (hd pat)" "isWordCh (last pat)" "pat \<noteq> []" "wordOnly pat"
    by (auto simp: wordy_def wordOnly_def alnum_word)
  then show ?thesis
    using word_end [of pat w r] w r by (auto simp: matchWordAt_def)
qed

lemma replace_inside:
  "wordOnly v \<Longrightarrow> isWordCh (hd pat) \<Longrightarrow>
   replaceWord pat rep True (v @ r) = v @ replaceWord pat rep True r"
  by (induction v) (auto simp: replaceWord.simps matchWordAt_def alnum_word)

lemma replace_space:
  "isWordCh (hd pat) \<Longrightarrow> replaceWord pat rep True (32 # r) = 32 # replaceWord pat rep False r"
  by (simp add: replaceWord.simps matchWordAt_def)

lemma replace_word_single:
  assumes "wordy pat" "wordy w" "\<not> nextIsWord r"
  shows "replaceWord pat rep False (w @ r) = subst pat rep w @ replaceWord pat rep True r"
proof -
  from assms obtain c v where w: "w = c # v" and v: "wordOnly v" and c: "isWordCh c"
    by (cases w) (auto simp: wordy_def alnum_word)
  from assms have hp: "isWordCh (hd pat)" "isWordCh (last pat)"
    by (auto simp: wordy_def wordOnly_def alnum_word)
  from assms have m: "matchWordAt pat False (w @ r) \<longleftrightarrow> pat = w"
    by (simp add: match_single wordy_def)
  show ?thesis
  proof (cases "pat = w")
    case True
    with m w hp show ?thesis by (simp add: replaceWord.simps subst_def)
  next
    case False
    with m w have "replaceWord pat rep False (w @ r) = c # replaceWord pat rep True (v @ r)"
      using c by (simp add: replaceWord.simps)
    with False w v hp show ?thesis by (simp add: replace_inside subst_def)
  qed
qed

lemma replace_single_words:
  "wordy pat \<Longrightarrow> \<forall>w \<in> set ws. wordy w \<Longrightarrow>
   replaceWord pat rep False (joinSp ws) = joinSp (map (subst pat rep) ws)"
proof (induction ws rule: joinSp.induct)
  case 1
  then show ?case by (simp add: replaceWord.simps)
next
  case (2 w)
  then show ?case
    using replace_word_single [of pat w "[]" rep]
    by (simp add: nextIsWord_def replaceWord.simps)
next
  case (3 w v ws)
  from 3 have hp: "isWordCh (hd pat)"
    by (auto simp: wordy_def wordOnly_def alnum_word)
  from 3 have "replaceWord pat rep False (w @ 32 # joinSp (v # ws)) =
      subst pat rep w @ replaceWord pat rep True (32 # joinSp (v # ws))"
    using replace_word_single [of pat w "32 # joinSp (v # ws)" rep]
    by (simp add: nextIsWord_def)
  with 3 hp show ?case by (simp add: replace_space)
qed


lemma pair_prefix:
  "wordOnly m \<Longrightarrow> wordOnly a \<Longrightarrow>
   startsWith (m @ 32 # q) (a @ 32 # s) \<longleftrightarrow> a = m \<and> startsWith q s"
proof (induction m a rule: startsWith.induct)
  case (1 s)
  then show ?case by (cases s) (auto simp: isLower_def isDigit_def)
next
  case (2 p ps)
  then show ?case by (auto simp: isLower_def isDigit_def)
next
  case (3 p ps c cs)
  then show ?case by auto
qed

lemma pair_prefix_last:
  "wordOnly m \<Longrightarrow> wordOnly a \<Longrightarrow> \<not> startsWith (m @ 32 # q) a"
proof (induction m a rule: startsWith.induct)
  case (1 s)
  then show ?case by (cases s) (auto simp: isLower_def isDigit_def)
next
  case (2 p ps)
  then show ?case by simp
next
  case (3 p ps c cs)
  then show ?case by auto
qed

lemma match_pair:
  assumes "wordy m" "wordy n" "wordOnly a" "wordOnly b" "\<not> nextIsWord r"
  shows "matchWordAt (m @ 32 # n) False (a @ 32 # b @ r) \<longleftrightarrow> a = m \<and> b = n"
proof -
  from assms have m: "m \<noteq> []" "wordOnly m" "isWordCh (hd m)"
    and n: "n \<noteq> []" "wordOnly n" "isWordCh (last n)"
    by (auto simp: wordy_def wordOnly_def alnum_word)
  have p: "startsWith (m @ 32 # n) (a @ 32 # b @ r) \<longleftrightarrow> a = m \<and> startsWith n (b @ r)"
    using m assms by (simp add: pair_prefix)
  have e: "startsWith n (b @ r) \<and> \<not> nextIsWord (drop (length n) (b @ r)) \<longleftrightarrow> n = b"
    using n assms word_end [of n b r] by blast
  show ?thesis
  proof (cases "a = m")
    case True
    with m n p e show ?thesis by (auto simp: matchWordAt_def)
  next
    case False
    with p show ?thesis by (simp add: matchWordAt_def)
  qed
qed

definition tailJoin :: "jsstr list \<Rightarrow> jsstr" where
  "tailJoin ws = (if ws = [] then [] else 32 # joinSp ws)"

lemma joinSp_tail: "joinSp (w # ws) = w @ tailJoin ws"
  by (cases ws) (auto simp: tailJoin_def)

lemma tailJoin_next [simp]: "\<not> nextIsWord (tailJoin ws)"
  by (simp add: tailJoin_def nextIsWord_def)

lemma mergePair_Nil [simp]: "mergePair m n rep ws = [] \<longleftrightarrow> ws = []"
  by (induction m n rep ws rule: mergePair.induct) auto

lemma replace_tailJoin:
  "isWordCh (hd pat) \<Longrightarrow>
   replaceWord pat rep True (tailJoin ws) =
     (if ws = [] then [] else 32 # replaceWord pat rep False (joinSp ws))"
  by (auto simp: tailJoin_def replace_space replaceWord.simps(1))

lemma replace_nomatch:
  assumes "wordy a" "isWordCh (hd pat)" "\<not> matchWordAt pat False (a @ r)"
  shows "replaceWord pat rep False (a @ r) = a @ replaceWord pat rep True r"
proof -
  from assms obtain c v where a: "a = c # v" and v: "wordOnly v" and c: "isWordCh c"
    by (cases a) (auto simp: wordy_def alnum_word)
  from assms a c
  have "replaceWord pat rep False (a @ r) = c # replaceWord pat rep True (v @ r)"
    by (simp add: replaceWord.simps)
  with a v assms show ?thesis by (simp add: replace_inside)
qed

lemma replace_match:
  "s \<noteq> [] \<Longrightarrow> matchWordAt pat False s \<Longrightarrow>
   replaceWord pat rep False s =
     rep @ replaceWord pat rep (isWordCh (last pat)) (drop (length pat) s)"
  by (cases s) (auto simp: replaceWord.simps)

lemma replace_pair_words:
  "wordy m \<Longrightarrow> wordy n \<Longrightarrow> \<forall>w \<in> set ws. wordy w \<Longrightarrow>
   replaceWord (m @ 32 # n) rep False (joinSp ws) = joinSp (mergePair m n rep ws)"
proof (induction m n rep ws rule: mergePair.induct)
  case (1 m n rep a b ws)
  let ?pat = "m @ 32 # n"
  from 1 have a: "wordy a" "wordOnly a" "a \<noteq> []" and b: "wordy b" "wordOnly b"
    by (auto simp: wordy_def)
  from 1 have hp: "isWordCh (hd ?pat)" "isWordCh (last ?pat)"
    by (auto simp: wordy_def wordOnly_def alnum_word)
  have str: "joinSp (a # b # ws) = a @ 32 # b @ tailJoin ws"
    using joinSp_tail [of b ws] by simp
  have mt: "matchWordAt ?pat False (a @ 32 # b @ tailJoin ws) \<longleftrightarrow> a = m \<and> b = n"
    using 1 a b by (simp add: match_pair)
  show ?case
  proof (cases "a = m \<and> b = n")
    case True
    with mt a have "replaceWord ?pat rep False (a @ 32 # b @ tailJoin ws) =
        rep @ replaceWord ?pat rep (isWordCh (last ?pat)) (drop (length ?pat) (a @ 32 # b @ tailJoin ws))"
      using replace_match [of "a @ 32 # b @ tailJoin ws" ?pat rep] by simp
    also have "\<dots> = rep @ replaceWord ?pat rep True (tailJoin ws)"
      using True hp by simp
    also have "\<dots> = rep @ (if ws = [] then [] else 32 # replaceWord ?pat rep False (joinSp ws))"
      using hp by (simp only: replace_tailJoin)
    also have "\<dots> = joinSp (rep # mergePair m n rep ws)"
    proof (cases "ws = []")
      case True
      then show ?thesis by simp
    next
      case False
      from 1 True have "replaceWord ?pat rep False (joinSp ws) = joinSp (mergePair m n rep ws)"
        by simp
      with False show ?thesis by (simp add: joinSp_Cons)
    qed
    finally show ?thesis using True str by simp
  next
    case False
    with mt have "\<not> matchWordAt ?pat False (a @ 32 # joinSp (b # ws))"
      by (simp add: joinSp_tail)
    with a hp have "replaceWord ?pat rep False (a @ 32 # joinSp (b # ws)) =
        a @ replaceWord ?pat rep True (32 # joinSp (b # ws))"
      using replace_nomatch [of a ?pat "32 # joinSp (b # ws)" rep] by simp
    also have "\<dots> = a @ 32 # replaceWord ?pat rep False (joinSp (b # ws))"
      using hp by (simp only: replace_space)
    also have "\<dots> = a @ 32 # joinSp (mergePair m n rep (b # ws))"
      using 1 False by simp
    also have "\<dots> = joinSp (a # mergePair m n rep (b # ws))"
      by (simp add: joinSp_Cons)
    finally show ?thesis using False by auto
  qed
next
  case (3 m n rep)
  then show ?case by (simp add: replaceWord.simps)
next
  case (2 m n rep v)
  then have v: "wordy v" "wordOnly v" and m: "wordOnly m" "isWordCh (hd (m @ 32 # n))"
    by (auto simp: wordy_def wordOnly_def alnum_word)
  then have nm: "\<not> matchWordAt (m @ 32 # n) False (v @ [])"
    by (simp add: matchWordAt_def pair_prefix_last)
  have "replaceWord (m @ 32 # n) rep False (v @ []) =
      v @ replaceWord (m @ 32 # n) rep True []"
    using v(1) m(2) nm by (rule replace_nomatch)
  then show ?case by (simp add: replaceWord.simps)
qed

lemma wordOnly_no_space: "wordOnly w \<Longrightarrow> 32 \<notin> set w"
  by (auto simp: wordOnly_def isLower_def isDigit_def)

lemma singleSpaces_word: "32 \<notin> set w \<Longrightarrow> singleSpaces w"
  by (induction w rule: singleSpaces.induct) auto

lemma singleSpaces_join:
  "32 \<notin> set w \<Longrightarrow> singleSpaces t \<Longrightarrow> t \<noteq> [] \<Longrightarrow> hd t \<noteq> 32 \<Longrightarrow>
   singleSpaces (w @ 32 # t)"
  by (induction w) (auto simp: singleSpaces_Cons)

lemma joinSp_Nil [simp]: "\<forall>w \<in> set ws. wordy w \<Longrightarrow> joinSp ws = [] \<longleftrightarrow> ws = []"
  by (cases ws rule: joinSp.cases) (auto simp: wordy_def)

lemma words_normalized: "\<forall>w \<in> set ws. wordy w \<Longrightarrow> normalized (joinSp ws)"
proof (induction ws rule: joinSp.induct)
  case 1
  then show ?case by (simp add: normalized_def)
next
  case (2 w)
  then have w: "w \<noteq> []" "wordOnly w" by (auto simp: wordy_def)
  then have "32 \<notin> set w" by (simp add: wordOnly_no_space)
  moreover from w have "hd w \<in> set w" "last w \<in> set w" by simp_all
  ultimately have "hd w \<noteq> 32" "last w \<noteq> 32" "singleSpaces w"
    by (auto simp: singleSpaces_word)
  with w show ?case
    by (auto simp: normalized_def wordOnly_def)
next
  case (3 w v ws)
  let ?t = "joinSp (v # ws)"
  from 3 have t: "normalized ?t" and tne: "?t \<noteq> []" by auto
  from 3 have w: "w \<noteq> []" "wordOnly w" by (auto simp: wordy_def)
  then have ns: "32 \<notin> set w" by (simp add: wordOnly_no_space)
  from t tne have ss: "singleSpaces (w @ 32 # ?t)"
    using singleSpaces_join [OF ns, of ?t] by (simp add: normalized_def)
  from w ns have "hd w \<noteq> 32" by (metis hd_in_set)
  with w have "hd (w @ 32 # ?t) \<noteq> 32" by simp
  moreover from t tne have "last (w @ 32 # ?t) \<noteq> 32" by (simp add: normalized_def)
  moreover from w t have "\<forall>c \<in> set (w @ 32 # ?t). isLower c \<or> isDigit c \<or> c = 32"
    by (auto simp: normalized_def wordOnly_def)
  ultimately show ?case using ss by (simp add: normalized_def)
qed

lemma normalized_words:
  "normalized t \<Longrightarrow> \<exists>ws. (\<forall>w \<in> set ws. wordy w) \<and> t = joinSp ws"
proof (induction t rule: length_induct)
  case (1 t)
  show ?case
  proof (cases "t = []")
    case True
    then have "(\<forall>w \<in> set []. wordy w) \<and> t = joinSp []" by simp
    then show ?thesis by blast
  next
    case False
    let ?w = "takeWhile (\<lambda>c. c \<noteq> 32) t"
    let ?r = "dropWhile (\<lambda>c. c \<noteq> 32) t"
    from 1 have u: "\<forall>c \<in> set t. isLower c \<or> isDigit c \<or> c = 32"
      and ss: "singleSpaces t" by (auto simp: normalized_def)
    from 1 False have h: "hd t \<noteq> 32" and l: "last t \<noteq> 32" by (auto simp: normalized_def)
    have t: "t = ?w @ ?r" by simp
    from False h have wne: "?w \<noteq> []" by (cases t) auto
    have "\<forall>c \<in> set ?w. isLower c \<or> isDigit c"
      using u by (metis (mono_tags, lifting) set_takeWhileD)
    with wne have w: "wordy ?w" by (simp add: wordy_def wordOnly_def)
    show ?thesis
    proof (cases "?r = []")
      case True
      with t have "t = joinSp [?w]" by simp
      with w show ?thesis by (metis list.set_cases neq_Nil_conv set_ConsD)
    next
      case rne: False
      then have "hd ?r = 32" using hd_dropWhile [of "\<lambda>c. c \<noteq> 32" t] by blast
      with rne obtain r' where r: "?r = 32 # r'" by (cases ?r) auto
      from ss t have ssr: "singleSpaces ?r" using singleSpaces_append by metis
      from l t r have r'ne: "r' \<noteq> []" by (metis last_appendR last_snoc append_Nil list.distinct(1) last.simps)
      from ssr r r'ne have hr: "hd r' \<noteq> 32" by (cases r') auto
      from ssr r have ssr': "singleSpaces r'" by (simp add: singleSpaces_Cons)
      from l t r r'ne have lr: "last r' \<noteq> 32" by (metis last_appendR last_ConsR list.distinct(1))
      from u t r have ur: "\<forall>c \<in> set r'. isLower c \<or> isDigit c \<or> c = 32"
        by (metis Un_iff set_append list.set_intros(2))
      from ur ssr' hr lr have nr: "normalized r'" by (simp add: normalized_def)
      from t r have "length r' < length t"
        by (metis length_append length_Cons less_add_Suc2 add_Suc_right less_SucI)
      with 1 nr obtain ws where ws: "\<forall>w \<in> set ws. wordy w" "r' = joinSp ws" by blast
      with r'ne have "ws \<noteq> []" by auto
      with t r ws have "t = joinSp (?w # ws)" by (simp add: joinSp_Cons)
      moreover from w ws have "\<forall>x \<in> set (?w # ws). wordy x" by simp
      ultimately show ?thesis by blast
    qed
  qed
qed

lemma normalized_tidy: "normalized t \<Longrightarrow> trim (collapseWs t) = t"
proof -
  assume n: "normalized t"
  then have u: "\<forall>c \<in> set t. isLower c \<or> isDigit c \<or> c = 32"
    and ss: "singleSpaces t" by (auto simp: normalized_def)
  have ends: "t \<noteq> [] \<longrightarrow> \<not> isWs (hd t) \<and> \<not> isWs (last t)"
  proof
    assume ne: "t \<noteq> []"
    with n have "hd t \<noteq> 32" "last t \<noteq> 32" by (auto simp: normalized_def)
    moreover from ne u have "isLower (hd t) \<or> isDigit (hd t) \<or> hd t = 32"
      "isLower (last t) \<or> isDigit (last t) \<or> last t = 32" by auto
    ultimately show "\<not> isWs (hd t) \<and> \<not> isWs (last t)" using alnum_not_ws by blast
  qed
  show ?thesis by (simp add: collapse_fixed [OF u ss] trim_fixed [OF ends])
qed

definition fuzzyWords :: "jsstr list \<Rightarrow> jsstr list" where
  "fuzzyWords ws =
     map (subst (js ''tha'') (js ''the''))
       (mergePair (js ''mid'') (js ''night'') (js ''midnigh'')
         (map (subst (js ''midnite'') (js ''midnigh''))
           (map (subst (js ''midnight'') (js ''midnigh''))
             (map (subst (js ''nite'') (js ''night'')) ws))))"

lemma subst_wordy: "wordy rep \<Longrightarrow> \<forall>w \<in> set ws. wordy w \<Longrightarrow>
   \<forall>w \<in> set (map (subst pat rep) ws). wordy w"
  by (auto simp: subst_def)

lemma mergePair_set: "set (mergePair m n rep ws) \<subseteq> insert rep (set ws)"
  by (induction m n rep ws rule: mergePair.induct) auto

lemma mergePair_wordy: "wordy rep \<Longrightarrow> \<forall>w \<in> set ws. wordy w \<Longrightarrow>
   \<forall>w \<in> set (mergePair m n rep ws). wordy w"
  using mergePair_set by fastforce

lemma subst_gone: "rep \<noteq> pat \<Longrightarrow> pat \<notin> set (map (subst pat rep) ws)"
  by (auto simp: subst_def)

lemma subst_keeps: "q \<notin> set ws \<Longrightarrow> rep \<noteq> q \<Longrightarrow> q \<notin> set (map (subst pat rep) ws)"
  by (auto simp: subst_def)

lemma mergePair_keeps: "q \<notin> set ws \<Longrightarrow> rep \<noteq> q \<Longrightarrow> q \<notin> set (mergePair m n rep ws)"
  using mergePair_set by fastforce

lemma subst_absent: "pat \<notin> set ws \<Longrightarrow> map (subst pat rep) ws = ws"
  by (induction ws) (auto simp: subst_def)

lemma mergePair_skip: "x \<noteq> m \<Longrightarrow> mergePair m n rep (x # ws) = x # mergePair m n rep ws"
  by (cases ws) auto

lemma mergePair_skip2:
  "ws \<noteq> [] \<Longrightarrow> hd ws \<noteq> n \<Longrightarrow> mergePair m n rep (x # ws) = x # mergePair m n rep ws"
  by (cases ws) auto

lemma mergePair_hd:
  "hd (mergePair m n rep (b # ws)) = b \<or> hd (mergePair m n rep (b # ws)) = rep"
  by (cases ws) auto

lemma mergePair_idem:
  "rep \<noteq> m \<Longrightarrow> rep \<noteq> n \<Longrightarrow>
   mergePair m n rep (mergePair m n rep ws) = mergePair m n rep ws"
proof (induction m n rep ws rule: mergePair.induct)
  case (1 m n rep a b ws)
  show ?case
  proof (cases "a = m \<and> b = n")
    case True
    with 1 show ?thesis by (simp add: mergePair_skip)
  next
    case False
    let ?y = "mergePair m n rep (b # ws)"
    have ne: "?y \<noteq> []" by simp
    have step: "mergePair m n rep (a # ?y) = a # mergePair m n rep ?y"
    proof (cases "a = m")
      case True
      with False have "b \<noteq> n" by simp
      with 1 have "hd ?y \<noteq> n" using mergePair_hd [of m n rep b ws] by auto
      with ne show ?thesis by (rule mergePair_skip2)
    next
      case False
      then show ?thesis by (rule mergePair_skip)
    qed
    from 1 False have "mergePair m n rep ?y = ?y" by simp
    with step False show ?thesis by auto
  qed
next
  case (2 m n rep a)
  then show ?case by simp
next
  case (3 m n rep)
  then show ?case by simp
qed

lemma mergePair_subst:
  "p \<noteq> m \<Longrightarrow> p \<noteq> n \<Longrightarrow> p \<noteq> rep \<Longrightarrow> r \<noteq> m \<Longrightarrow> r \<noteq> n \<Longrightarrow>
   mergePair m n rep (map (subst p r) ws) = map (subst p r) (mergePair m n rep ws)"
  by (induction m n rep ws rule: mergePair.induct) (auto simp: subst_def)

lemma word_literals:
  "wordy (js ''nite'')" "wordy (js ''night'')" "wordy (js ''midnight'')"
  "wordy (js ''midnigh'')" "wordy (js ''midnite'')" "wordy (js ''mid'')"
  "wordy (js ''tha'')" "wordy (js ''the'')"
  "js ''mid night'' = js ''mid'' @ 32 # js ''night''"
  by (simp_all add: wordy_def js_def isLower_def)

lemma word_distinct:
  "js ''night'' \<noteq> js ''nite''" "js ''midnigh'' \<noteq> js ''nite''" "js ''the'' \<noteq> js ''nite''"
  "js ''midnigh'' \<noteq> js ''midnight''" "js ''the'' \<noteq> js ''midnight''"
  "js ''midnigh'' \<noteq> js ''midnite''" "js ''the'' \<noteq> js ''midnite''"
  "js ''the'' \<noteq> js ''tha''"
  "js ''midnigh'' \<noteq> js ''mid''" "js ''midnigh'' \<noteq> js ''night''"
  "js ''tha'' \<noteq> js ''mid''" "js ''tha'' \<noteq> js ''night''" "js ''tha'' \<noteq> js ''midnigh''"
  "js ''the'' \<noteq> js ''mid''" "js ''the'' \<noteq> js ''night''"
  by (simp_all add: js_def)

lemma fuzzyWords_wordy:
  assumes w: "\<forall>w \<in> set ws. wordy w"
  shows "\<forall>w \<in> set (fuzzyWords ws). wordy w"
  unfolding fuzzyWords_def
  by (rule subst_wordy [OF word_literals(8) mergePair_wordy [OF word_literals(4)
        subst_wordy [OF word_literals(4) subst_wordy [OF word_literals(4)
        subst_wordy [OF word_literals(2) w]]]]])

lemma fuzzyNorm_words:
  assumes n: "normalize s = joinSp ws" and w: "\<forall>w \<in> set ws. wordy w"
  shows "fuzzyNorm s = joinSp (fuzzyWords ws)"
proof -
  let ?w1 = "map (subst (js ''nite'') (js ''night'')) ws"
  let ?w2 = "map (subst (js ''midnight'') (js ''midnigh'')) ?w1"
  let ?w3 = "map (subst (js ''midnite'') (js ''midnigh'')) ?w2"
  let ?w4 = "mergePair (js ''mid'') (js ''night'') (js ''midnigh'') ?w3"
  let ?w5 = "map (subst (js ''tha'') (js ''the'')) ?w4"
  have w1: "\<forall>w \<in> set ?w1. wordy w" by (rule subst_wordy [OF word_literals(2) w])
  have w2: "\<forall>w \<in> set ?w2. wordy w" by (rule subst_wordy [OF word_literals(4) w1])
  have w3: "\<forall>w \<in> set ?w3. wordy w" by (rule subst_wordy [OF word_literals(4) w2])
  have w4: "\<forall>w \<in> set ?w4. wordy w" by (rule mergePair_wordy [OF word_literals(4) w3])
  have w5: "\<forall>w \<in> set ?w5. wordy w" by (rule subst_wordy [OF word_literals(8) w4])
  have "replaceWord (js ''nite'') (js ''night'') False (normalize s) = joinSp ?w1"
    using w n by (simp add: replace_single_words word_literals)
  then have "replaceWord (js ''midnight'') (js ''midnigh'') False
      (replaceWord (js ''nite'') (js ''night'') False (normalize s)) = joinSp ?w2"
    using w1 by (simp only: replace_single_words word_literals)
  then have "replaceWord (js ''midnite'') (js ''midnigh'') False
      (replaceWord (js ''midnight'') (js ''midnigh'') False
      (replaceWord (js ''nite'') (js ''night'') False (normalize s))) = joinSp ?w3"
    using w2 by (simp only: replace_single_words word_literals)
  then have "replaceWord (js ''mid night'') (js ''midnigh'') False
      (replaceWord (js ''midnite'') (js ''midnigh'') False
      (replaceWord (js ''midnight'') (js ''midnigh'') False
      (replaceWord (js ''nite'') (js ''night'') False (normalize s)))) = joinSp ?w4"
    using w3 by (simp only: replace_pair_words word_literals)
  then have "replaceWord (js ''tha'') (js ''the'') False
      (replaceWord (js ''mid night'') (js ''midnigh'') False
      (replaceWord (js ''midnite'') (js ''midnigh'') False
      (replaceWord (js ''midnight'') (js ''midnigh'') False
      (replaceWord (js ''nite'') (js ''night'') False (normalize s))))) = joinSp ?w5"
    using w4 by (simp only: replace_single_words word_literals)
  moreover have "trim (collapseWs (joinSp ?w5)) = joinSp ?w5"
    using w5 by (intro normalized_tidy words_normalized)
  ultimately show ?thesis by (simp only: fuzzyNorm_def fuzzyWords_def)
qed

lemma fuzzyWords_idem: "fuzzyWords (fuzzyWords ws) = fuzzyWords ws"
proof -
  let ?w1 = "map (subst (js ''nite'') (js ''night'')) ws"
  let ?w2 = "map (subst (js ''midnight'') (js ''midnigh'')) ?w1"
  let ?w3 = "map (subst (js ''midnite'') (js ''midnigh'')) ?w2"
  let ?w4 = "mergePair (js ''mid'') (js ''night'') (js ''midnigh'') ?w3"
  let ?w5 = "map (subst (js ''tha'') (js ''the'')) ?w4"
  have g: "fuzzyWords ws = ?w5" by (simp only: fuzzyWords_def)
  have "js ''nite'' \<notin> set ?w1" by (rule subst_gone [OF word_distinct(1)])
  then have "js ''nite'' \<notin> set ?w2" by (rule subst_keeps [OF _ word_distinct(2)])
  then have "js ''nite'' \<notin> set ?w3" by (rule subst_keeps [OF _ word_distinct(2)])
  then have "js ''nite'' \<notin> set ?w4" by (rule mergePair_keeps [OF _ word_distinct(2)])
  then have a1: "js ''nite'' \<notin> set ?w5" by (rule subst_keeps [OF _ word_distinct(3)])
  have "js ''midnight'' \<notin> set ?w2" by (rule subst_gone [OF word_distinct(4)])
  then have "js ''midnight'' \<notin> set ?w3" by (rule subst_keeps [OF _ word_distinct(4)])
  then have "js ''midnight'' \<notin> set ?w4" by (rule mergePair_keeps [OF _ word_distinct(4)])
  then have a2: "js ''midnight'' \<notin> set ?w5" by (rule subst_keeps [OF _ word_distinct(5)])
  have "js ''midnite'' \<notin> set ?w3" by (rule subst_gone [OF word_distinct(6)])
  then have "js ''midnite'' \<notin> set ?w4" by (rule mergePair_keeps [OF _ word_distinct(6)])
  then have a3: "js ''midnite'' \<notin> set ?w5" by (rule subst_keeps [OF _ word_distinct(7)])
  have a5: "js ''tha'' \<notin> set ?w5" by (rule subst_gone [OF word_distinct(8)])
  have "mergePair (js ''mid'') (js ''night'') (js ''midnigh'') ?w5 =
      map (subst (js ''tha'') (js ''the''))
        (mergePair (js ''mid'') (js ''night'') (js ''midnigh'') ?w4)"
    by (intro mergePair_subst word_distinct)
  also have "\<dots> = ?w5"
    by (simp only: mergePair_idem [OF word_distinct(9) word_distinct(10)])
  finally have a4: "mergePair (js ''mid'') (js ''night'') (js ''midnigh'') ?w5 = ?w5" .
  have "fuzzyWords ?w5 = ?w5"
    unfolding fuzzyWords_def [of ?w5]
    by (simp only: subst_absent [OF a1] subst_absent [OF a2] subst_absent [OF a3] a4
        subst_absent [OF a5])
  with g show ?thesis by simp
qed

section \<open>Sell page scraping\<close>

subsection \<open>Regular expressions\<close>

text \<open>
  The parser works on the raw markup with regular expressions. Each expression is
  modelled by a function that tries it at the head of a string and returns what is left
  behind the match, or the captured group. A greedy quantifier is modelled by the
  longest run (\<open>many1\<close>, \<open>dropWhile\<close>) wherever what follows it in the expression cannot
  start with a code unit of the quantified class, so that giving back part of the run
  never leads to a match; the one expression where giving back matters
  (\<open>shipCountryAt\<close>) spells the backtracking out. With the flag \<open>i\<close> and no flag \<open>u\<close> an
  ASCII letter of the pattern matches its two cases only.
\<close>

definition foldCase :: "nat \<Rightarrow> nat" where
  "foldCase c = (if isUpper c then c + 32 else c)"

fun lit :: "jsstr \<Rightarrow> jsstr \<Rightarrow> jsstr option" where
  "lit [] s = Some s"
| "lit (p # ps) [] = None"
| "lit (p # ps) (c # cs) = (if p = c then lit ps cs else None)"

fun litCI :: "jsstr \<Rightarrow> jsstr \<Rightarrow> jsstr option" where
  "litCI [] s = Some s"
| "litCI (p # ps) [] = None"
| "litCI (p # ps) (c # cs) = (if foldCase p = foldCase c then litCI ps cs else None)"

text \<open>One code unit of a class; one or more, as many as there are; the run itself.\<close>

definition one :: "(nat \<Rightarrow> bool) \<Rightarrow> jsstr \<Rightarrow> jsstr option" where
  "one P s = (case s of [] \<Rightarrow> None | c # cs \<Rightarrow> if P c then Some cs else None)"

definition many1 :: "(nat \<Rightarrow> bool) \<Rightarrow> jsstr \<Rightarrow> jsstr option" where
  "many1 P s = (case s of [] \<Rightarrow> None | c # cs \<Rightarrow> if P c then Some (dropWhile P cs) else None)"

definition capture1 :: "(nat \<Rightarrow> bool) \<Rightarrow> jsstr \<Rightarrow> jsstr option" where
  "capture1 P s = (case s of [] \<Rightarrow> None | c # cs \<Rightarrow> if P c then Some (takeWhile P s) else None)"

text \<open>An expression without anchor matches at the leftmost position where it can.\<close>

fun firstMatch :: "(jsstr \<Rightarrow> 'a option) \<Rightarrow> jsstr \<Rightarrow> 'a option" where
  "firstMatch f [] = f []"
| "firstMatch f (c # cs) = (case f (c # cs) of Some r \<Rightarrow> Some r | None \<Rightarrow> firstMatch f cs)"

text \<open>\<open>/\d+\s*[\u2013\u2014-]\s*\d+\s+of\s+([\d,]+)/\<close>, giving group 1.\<close>

definition isDash :: "nat \<Rightarrow> bool" where
  "isDash c \<longleftrightarrow> c = 8211 \<or> c = 8212 \<or> c = 45"

definition isDigitComma :: "nat \<Rightarrow> bool" where
  "isDigitComma c \<longleftrightarrow> isDigit c \<or> c = 44"

definition countAt :: "jsstr \<Rightarrow> jsstr option" where
  "countAt s = do {
     r1 \<leftarrow> many1 isDigit s;
     r2 \<leftarrow> one isDash (dropWhile isWs r1);
     r3 \<leftarrow> many1 isDigit (dropWhile isWs r2);
     r4 \<leftarrow> many1 isWs r3;
     r5 \<leftarrow> lit (js ''of'') r4;
     r6 \<leftarrow> many1 isWs r5;
     capture1 isDigitComma r6 }"

definition countMatch :: "jsstr \<Rightarrow> jsstr option" where
  "countMatch html = firstMatch countAt html"

text \<open>
  \<open>parseInt(countMatch[1].replace(/,/g, ""), 10) || 0\<close>. The group holds digits and
  commas only; without a digit \<open>parseInt\<close> gives \<open>NaN\<close> and the result is 0. Counts are
  natural numbers here: the model leaves out that a JavaScript number above \<open>2^53\<close> is
  rounded.
\<close>

definition digitsValue :: "jsstr \<Rightarrow> nat" where
  "digitsValue ds = foldl (\<lambda>a c. 10 * a + (c - 48)) 0 ds"

definition parseIntOr0 :: "jsstr \<Rightarrow> nat" where
  "parseIntOr0 cap =
     (let ds = filter (\<lambda>c. c \<noteq> 44) cap in if ds = [] then 0 else digitsValue ds)"

text \<open>\<open>/No\s+items\s+for\s+sale|0\s+results|Sorry,\s+no\s+results/i\<close>.\<close>

definition noResultsAt :: "jsstr \<Rightarrow> jsstr option" where
  "noResultsAt s =
     (case do { r1 \<leftarrow> litCI (js ''No'') s; r2 \<leftarrow> many1 isWs r1;
                r3 \<leftarrow> litCI (js ''items'') r2; r4 \<leftarrow> many1 isWs r3;
                r5 \<leftarrow> litCI (js ''for'') r4; r6 \<leftarrow> many1 isWs r5;
                litCI (js ''sale'') r6 } of
        Some r \<Rightarrow> Some r
      | None \<Rightarrow>
         (case do { r1 \<leftarrow> litCI (js ''0'') s; r2 \<leftarrow> many1 isWs r1;
                    litCI (js ''results'') r2 } of
            Some r \<Rightarrow> Some r
          | None \<Rightarrow> do { r1 \<leftarrow> litCI (js ''Sorry,'') s; r2 \<leftarrow> many1 isWs r1;
                         r3 \<leftarrow> litCI (js ''no'') r2; r4 \<leftarrow> many1 isWs r3;
                         litCI (js ''results'') r4 }))"

definition noResults :: "jsstr \<Rightarrow> bool" where
  "noResults html \<longleftrightarrow> firstMatch noResultsAt html \<noteq> None"

text \<open>The condition marker \<open>/Media[\s-]+Condition\s*:/i\<close>.\<close>

definition isWsHyphen :: "nat \<Rightarrow> bool" where
  "isWsHyphen c \<longleftrightarrow> isWs c \<or> c = 45"

definition markerAt :: "jsstr \<Rightarrow> jsstr option" where
  "markerAt s = do {
     r1 \<leftarrow> litCI (js ''Media'') s;
     r2 \<leftarrow> many1 isWsHyphen r1;
     r3 \<leftarrow> litCI (js ''Condition'') r2;
     lit (js '':'') (dropWhile isWs r3) }"

lemma lit_length: "lit p s = Some r \<Longrightarrow> length r + length p = length s"
  by (induction p s rule: lit.induct) (auto split: if_splits)

lemma litCI_length: "litCI p s = Some r \<Longrightarrow> length r + length p = length s"
  by (induction p s rule: litCI.induct) (auto split: if_splits)

lemma one_length: "one P s = Some r \<Longrightarrow> length r < length s"
  by (auto simp: one_def split: list.splits if_splits)

lemma many1_length: "many1 P s = Some r \<Longrightarrow> length r < length s"
  by (auto simp: many1_def le_imp_less_Suc length_dropWhile_le split: list.splits if_splits)

lemma markerAt_length: "markerAt s = Some r \<Longrightarrow> length r < length s"
proof -
  assume "markerAt s = Some r"
  then obtain r1 r2 r3 where a: "litCI (js ''Media'') s = Some r1"
    and b: "many1 isWsHyphen r1 = Some r2" and c: "litCI (js ''Condition'') r2 = Some r3"
    and d: "lit (js '':'') (dropWhile isWs r3) = Some r"
    by (auto simp: markerAt_def split: Option.bind_splits)
  from d have "length r < length r3"
    using lit_length [OF d] length_dropWhile_le [of isWs r3] by (simp add: js_def)
  with litCI_length [OF a] many1_length [OF b] litCI_length [OF c] show ?thesis
    by simp
qed

text \<open>\<open>(html.match(/Media[\s-]+Condition\s*:/gi) || []).length\<close>: the matches are counted
  from the left, each search starting behind the match before.\<close>

function countMarkers :: "jsstr \<Rightarrow> nat" where
  "countMarkers [] = 0"
| "countMarkers (c # cs) =
     (case markerAt (c # cs) of
        Some r \<Rightarrow> Suc (countMarkers r)
      | None \<Rightarrow> countMarkers cs)"
  by pat_completeness auto
termination
  by (relation "measure length") (auto dest: markerAt_length)

text \<open>\<open>html.split(/Media[\s-]+Condition\s*:/i)\<close>: the pieces between the markers.\<close>

function splitMarker :: "jsstr \<Rightarrow> jsstr list" where
  "splitMarker [] = [[]]"
| "splitMarker (c # cs) =
     (case markerAt (c # cs) of
        Some r \<Rightarrow> [] # splitMarker r
      | None \<Rightarrow> (case splitMarker cs of [] \<Rightarrow> [[c]] | p # ps \<Rightarrow> (c # p) # ps))"
  by pat_completeness auto
termination
  by (relation "measure length") (auto dest: markerAt_length)

text \<open>\<open>/\$[\d,.]/.test(block)\<close>.\<close>

definition isAmountUnit :: "nat \<Rightarrow> bool" where
  "isAmountUnit c \<longleftrightarrow> isDigit c \<or> c = 44 \<or> c = 46"

fun hasDollarAmount :: "jsstr \<Rightarrow> bool" where
  "hasDollarAmount (a # b # r) = ((a = 36 \<and> isAmountUnit b) \<or> hasDollarAmount (b # r))"
| "hasDollarAmount [a] = False"
| "hasDollarAmount [] = False"

text \<open>
  The eight grades, in the order of the alternation of the source, and
  \<open>[\s]*(?:<[^>]*>\s*)*(Mint \(M\)|...)\<close>: white space, any number of tags, a grade. A tag
  runs from \<open><\<close> to the next \<open>>\<close>. No grade starts with \<open><\<close>, so where a tag stands the
  expression can only go on behind it.
\<close>

definition grades :: "jsstr list" where
  "grades = [js ''Mint (M)'', js ''Near Mint (NM or M-)'', js ''Very Good Plus (VG+)'',
             js ''Very Good (VG)'', js ''Good Plus (G+)'', js ''Good (G)'', js ''Fair (F)'',
             js ''Poor (P)'']"

definition gradeAt :: "jsstr \<Rightarrow> jsstr option" where
  "gradeAt s = find (\<lambda>g. startsWith g s) grades"

definition tagAt :: "jsstr \<Rightarrow> jsstr option" where
  "tagAt s =
     (case s of
        [] \<Rightarrow> None
      | c # t \<Rightarrow> if c = 60 \<and> 62 \<in> set t then Some (tl (dropWhile (\<lambda>d. d \<noteq> 62) t)) else None)"

lemma tagAt_length: "tagAt s = Some r \<Longrightarrow> length r < length s"
proof -
  assume "tagAt s = Some r"
  then obtain t where s: "s = 60 # t" and r: "r = tl (dropWhile (\<lambda>d. d \<noteq> 62) t)"
    by (auto simp: tagAt_def split: list.splits if_splits)
  have "length (dropWhile (\<lambda>d. d \<noteq> 62) t) \<le> length t" by (rule length_dropWhile_le)
  with s r show ?thesis by simp
qed

function gradeAfterTags :: "jsstr \<Rightarrow> jsstr option" where
  "gradeAfterTags s =
     (case tagAt s of
        Some r \<Rightarrow> gradeAfterTags (dropWhile isWs r)
      | None \<Rightarrow> gradeAt s)"
  by pat_completeness auto
termination
proof (relation "measure length")
  show "wf (measure length)" by simp
next
  fix s r :: jsstr
  assume "tagAt s = Some r"
  then have "length r < length s" by (rule tagAt_length)
  moreover have "length (dropWhile isWs r) \<le> length r" by (rule length_dropWhile_le)
  ultimately show "(dropWhile isWs r, s) \<in> measure length" by simp
qed

definition condAt :: "jsstr \<Rightarrow> jsstr option" where
  "condAt s = gradeAfterTags (dropWhile isWs s)"

definition condMatch :: "jsstr \<Rightarrow> jsstr option" where
  "condMatch block = firstMatch condAt block"

text \<open>\<open>/Ships\s+From\s*:/i.test(block)\<close>.\<close>

definition shipsFromAt :: "jsstr \<Rightarrow> jsstr option" where
  "shipsFromAt s = do {
     r1 \<leftarrow> litCI (js ''Ships'') s;
     r2 \<leftarrow> many1 isWs r1;
     r3 \<leftarrow> litCI (js ''From'') r2;
     lit (js '':'') (dropWhile isWs r3) }"

definition hasShipsFrom :: "jsstr \<Rightarrow> bool" where
  "hasShipsFrom block \<longleftrightarrow> firstMatch shipsFromAt block \<noteq> None"

text \<open>
  \<open>/Ships\s+From:\s*(?:<[^>]*>\s*)*([A-Za-z\s]+)/i\<close>, giving group 1. Here white space
  can end up in the group: when the group finds no letter behind the white space and
  the tags, the expression gives the last white space of the run before back, and the
  group starts there. \<open>tagsThenCountry\<close> tries the tags greedily and falls back in the
  order of the backtracking: first the white space behind the last tag, then one tag
  less.
\<close>

definition isCountryUnit :: "nat \<Rightarrow> bool" where
  "isCountryUnit c \<longleftrightarrow> isUpper c \<or> isLower c \<or> isWs c"

function tagsThenCountry :: "jsstr \<Rightarrow> jsstr option" where
  "tagsThenCountry p =
     (case tagAt p of
        Some r \<Rightarrow>
          (case tagsThenCountry (dropWhile isWs r) of
             Some c \<Rightarrow> Some c
           | None \<Rightarrow>
               if takeWhile isWs r \<noteq> []
               then capture1 isCountryUnit (last (takeWhile isWs r) # dropWhile isWs r)
               else capture1 isCountryUnit p)
      | None \<Rightarrow> capture1 isCountryUnit p)"
  by pat_completeness auto
termination
proof (relation "measure length")
  show "wf (measure length)" by simp
next
  fix p r :: jsstr
  assume "tagAt p = Some r"
  then have "length r < length p" by (rule tagAt_length)
  moreover have "length (dropWhile isWs r) \<le> length r" by (rule length_dropWhile_le)
  ultimately show "(dropWhile isWs r, p) \<in> measure length" by simp
qed

definition countryAfterColon :: "jsstr \<Rightarrow> jsstr option" where
  "countryAfterColon r =
     (case tagsThenCountry (dropWhile isWs r) of
        Some c \<Rightarrow> Some c
      | None \<Rightarrow>
          if takeWhile isWs r \<noteq> []
          then capture1 isCountryUnit (last (takeWhile isWs r) # dropWhile isWs r)
          else None)"

definition shipCountryAt :: "jsstr \<Rightarrow> jsstr option" where
  "shipCountryAt s = do {
     r1 \<leftarrow> litCI (js ''Ships'') s;
     r2 \<leftarrow> many1 isWs r1;
     r3 \<leftarrow> litCI (js ''From:'') r2;
     countryAfterColon r3 }"

definition shipMatch :: "jsstr \<Rightarrow> jsstr option" where
  "shipMatch block = firstMatch shipCountryAt block"

text \<open>\<open>/United States/i.test(country)\<close>.\<close>

definition isUnitedStates :: "jsstr \<Rightarrow> bool" where
  "isUnitedStates country \<longleftrightarrow> firstMatch (litCI (js ''United States'')) country \<noteq> None"

text \<open>
  \<open>/(\+)?(?:about\s+)?\$([\d,.]+)/g\<close> tried at the head of \<open>s\<close>: whether group 1 is
  \<open>+\<close>, group 2, and the length of the whole match. \<open>priceRegex.exec(block)\<close> searches
  from \<open>lastIndex\<close> to the right; its result holds \<open>pm.index\<close>, \<open>pm[0]\<close>, whether \<open>pm[1]\<close>
  is \<open>+\<close>, and \<open>pm[2]\<close>.
\<close>

definition priceAt :: "jsstr \<Rightarrow> (bool \<times> jsstr \<times> nat) option" where
  "priceAt s =
     (let plus = (s \<noteq> [] \<and> hd s = 43);
          s1 = (if plus then tl s else s);
          s2 = (case do { r \<leftarrow> lit (js ''about'') s1; many1 isWs r } of
                  Some r \<Rightarrow> r
                | None \<Rightarrow> s1)
      in case s2 of
           [] \<Rightarrow> None
         | c # t \<Rightarrow>
             if c = 36 then
               (case capture1 isAmountUnit t of
                  Some cap \<Rightarrow> Some (plus, cap, length s - length t + length cap)
                | None \<Rightarrow> None)
             else None)"

record priceMatch =
  index :: nat
  whole :: jsstr
  plusGroup :: bool
  amount :: jsstr

function execFrom :: "jsstr \<Rightarrow> nat \<Rightarrow> priceMatch option" where
  "execFrom block i =
     (if length block < i then None
      else case priceAt (drop i block) of
          Some (p, cap, n) \<Rightarrow>
            Some \<lparr>index = i, whole = take n (drop i block), plusGroup = p, amount = cap\<rparr>
        | None \<Rightarrow> if i < length block then execFrom block (Suc i) else None)"
  by pat_completeness auto
termination
  by (relation "measure (\<lambda>(block, i). length block - i)") auto

declare execFrom.simps [simp del]
declare gradeAfterTags.simps [simp del]
declare tagsThenCountry.simps [simp del]

text \<open>
  \<open>parseFloat\<close> of a text of digits and dots (the commas are removed before): the
  longest head that is a decimal literal, \<open>None\<close> for \<open>NaN\<close>. The value is the decimal
  itself, a real number, which stands for the double it is rounded to (\<open>Infinity\<close>
  beyond the largest double). The one test of the parser that this rounding can change
  is \<open>val > 0\<close>; it is modelled by \<open>positiveNumber\<close> below.
\<close>

definition parseFloat :: "jsstr \<Rightarrow> real option" where
  "parseFloat str =
     (let ip = takeWhile isDigit str; rest = dropWhile isDigit str in
      case rest of
        [] \<Rightarrow> if ip = [] then None else Some (real (digitsValue ip))
      | c # r \<Rightarrow>
          if c = 46 then
            (let fp = takeWhile isDigit r in
             if ip = [] \<and> fp = [] then None
             else Some (real (digitsValue ip) + real (digitsValue fp) / 10 ^ length fp))
          else if ip = [] then None else Some (real (digitsValue ip)))"

text \<open>\<open>/shipping\s*$/i.test(before)\<close>.\<close>

definition endsWithShipping :: "jsstr \<Rightarrow> bool" where
  "endsWithShipping beforeText \<longleftrightarrow>
     firstMatch (\<lambda>s. case litCI (js ''shipping'') s of
                        None \<Rightarrow> None
                      | Some r \<Rightarrow> if dropWhile isWs r = [] then Some r else None) beforeText
       \<noteq> None"

text \<open>\<open>block.substring(Math.max(0, pm.index - 20), pm.index)\<close>.\<close>

definition textBefore :: "jsstr \<Rightarrow> nat \<Rightarrow> jsstr" where
  "textBefore block i = drop (i - 20) (take i block)"

text \<open>
  \<open>val > 0\<close> for the double that \<open>parseFloat\<close> returns. The double nearest to a decimal
  that is not negative is 0 exactly when the decimal is at most \<open>2^-1075\<close>, half the
  smallest positive double; at the half the tie goes to the even neighbour, which is 0.
  An amount such as \<open>0.00...01\<close> with 330 zeros therefore parses to 0.
\<close>

definition positiveNumber :: "real \<Rightarrow> bool" where
  "positiveNumber v \<longleftrightarrow> 1 / 2 ^ 1075 < v"

text \<open>The tests of the \<open>while\<close> loop on one match, in the order of the source: the value
  the loop stops with, or \<open>None\<close> when it goes on to the next match.\<close>

definition acceptedValue :: "jsstr \<Rightarrow> priceMatch \<Rightarrow> real option" where
  "acceptedValue block pm =
     (if plusGroup pm then None
      else if indexOf (js ''about'') (whole pm) \<noteq> None then None
      else if endsWithShipping (textBefore block (index pm)) then None
      else case parseFloat (filter (\<lambda>c. c \<noteq> 44) (amount pm)) of
             None \<Rightarrow> None
           | Some v \<Rightarrow> if positiveNumber v then Some v else None)"

lemma capture1_length: "capture1 P s = Some c \<Longrightarrow> 0 < length c \<and> length c \<le> length s"
  by (auto simp: capture1_def length_takeWhile_le split: list.splits if_splits)

lemma priceAt_length: "priceAt s = Some (p, cap, n) \<Longrightarrow> 0 < n \<and> s \<noteq> []"
  by (auto simp: priceAt_def Let_def js_def split: list.splits if_splits option.splits
      dest: capture1_length)

lemma execFrom_bounds:
  "execFrom block i = Some pm \<Longrightarrow>
     i \<le> index pm \<and> index pm < length block \<and> 0 < length (whole pm)"
proof (induction block i rule: execFrom.induct)
  case (1 block i)
  show ?case
  proof (cases "priceAt (drop i block)")
    case None
    with 1 show ?thesis
      by (auto simp: execFrom.simps [of block i] split: if_splits)
  next
    case (Some m)
    obtain p cap n where m: "m = (p, cap, n)" by (cases m)
    from Some m have n: "0 < n" "drop i block \<noteq> []"
      using priceAt_length by blast+
    from 1(2) Some m have "pm = \<lparr>index = i, whole = take n (drop i block), plusGroup = p, amount = cap\<rparr>"
      by (auto simp: execFrom.simps [of block i] split: if_splits)
    with n show ?thesis by auto
  qed
qed

function priceLoop :: "jsstr \<Rightarrow> nat \<Rightarrow> real option" where
  "priceLoop block lastIndex =
     (case execFrom block lastIndex of
        None \<Rightarrow> None
      | Some pm \<Rightarrow>
          (case acceptedValue block pm of
             Some v \<Rightarrow> Some v
           | None \<Rightarrow> priceLoop block (index pm + length (whole pm))))"
  by pat_completeness auto
termination
proof (relation "measure (\<lambda>(block, i). length block - i)")
  show "wf (measure (\<lambda>(block, i). length block - i))" by simp
next
  fix block :: jsstr and lastIndex :: nat and pm :: priceMatch
  assume "execFrom block lastIndex = Some pm"
  then have "lastIndex \<le> index pm \<and> index pm < length block \<and> 0 < length (whole pm)"
    by (rule execFrom_bounds)
  then have "length block - (index pm + length (whole pm)) < length block - lastIndex"
    by arith
  then show "((block, index pm + length (whole pm)), (block, lastIndex))
      \<in> measure (\<lambda>(block, i). length block - i)"
    by simp
qed

declare priceLoop.simps [simp del]

subsection \<open>Grades\<close>

definition GRADE_RANK :: "(jsstr \<times> nat) list" where
  "GRADE_RANK =
     [(js ''Mint (M)'', 1), (js ''Near Mint (NM or M-)'', 2), (js ''Very Good Plus (VG+)'', 3),
      (js ''Very Good (VG)'', 4), (js ''Good Plus (G+)'', 5), (js ''Good (G)'', 6),
      (js ''Fair (F)'', 7), (js ''Poor (P)'', 8)]"

definition isVGPlusOrBetter :: "jsstr \<Rightarrow> bool" where
  "isVGPlusOrBetter grade \<longleftrightarrow>
     (case map_of GRADE_RANK grade of None \<Rightarrow> False | Some rank \<Rightarrow> rank \<le> 3)"

subsection \<open>parseFilteredPage\<close>

record pageParse =
  total :: nat
  listingsOnPage :: nat
  matched :: nat
  prices :: "real list"
  lowest :: "real option"

text \<open>A block is a listing when it holds a dollar amount, a grade and a \<open>Ships From:\<close>;
  the three \<open>continue\<close> statements at the head of the loop skip every other block.\<close>

definition validBlock :: "jsstr \<Rightarrow> bool" where
  "validBlock block \<longleftrightarrow> hasDollarAmount block \<and> condMatch block \<noteq> None \<and> hasShipsFrom block"

text \<open>The two filters; \<open>condMatch[1]\<close> is the grade found in the block.\<close>

definition passesFilters :: "bool \<Rightarrow> bool \<Rightarrow> jsstr \<Rightarrow> bool" where
  "passesFilters usOnly vgPlus block =
     ((if vgPlus
       then (case condMatch block of None \<Rightarrow> False | Some g \<Rightarrow> isVGPlusOrBetter g)
       else True) \<and>
      (if usOnly
       then (case shipMatch block of None \<Rightarrow> False | Some c \<Rightarrow> isUnitedStates (trim c))
       else True))"

text \<open>One turn of the \<open>for\<close> loop over the blocks.\<close>

definition processBlock :: "bool \<Rightarrow> bool \<Rightarrow> pageParse \<Rightarrow> jsstr \<Rightarrow> pageParse" where
  "processBlock usOnly vgPlus st block =
     (if \<not> hasDollarAmount block then st
      else (case condMatch block of
        None \<Rightarrow> st
      | Some grade \<Rightarrow>
          (if \<not> hasShipsFrom block then st
           else if vgPlus \<and> \<not> isVGPlusOrBetter grade
             then st\<lparr>listingsOnPage := listingsOnPage st + 1\<rparr>
           else if usOnly \<and>
                   (case shipMatch block of None \<Rightarrow> True | Some c \<Rightarrow> \<not> isUnitedStates (trim c))
             then st\<lparr>listingsOnPage := listingsOnPage st + 1\<rparr>
           else (case priceLoop block 0 of
             None \<Rightarrow> st\<lparr>listingsOnPage := listingsOnPage st + 1, matched := matched st + 1\<rparr>
           | Some v \<Rightarrow>
               st\<lparr>listingsOnPage := listingsOnPage st + 1, matched := matched st + 1,
                  prices := prices st @ [v],
                  lowest := (case lowest st of
                               None \<Rightarrow> Some v
                             | Some l \<Rightarrow> if v < l then Some v else Some l)\<rparr>))))"

text \<open>The total before the loop, and whether the pagination header was found.\<close>

definition hasPagination :: "jsstr \<Rightarrow> bool" where
  "hasPagination html \<longleftrightarrow> countMatch html \<noteq> None"

definition headerTotal :: "jsstr \<Rightarrow> nat" where
  "headerTotal html =
     (case countMatch html of
        Some cap \<Rightarrow> parseIntOr0 cap
      | None \<Rightarrow> if noResults html then 0 else countMarkers html)"

definition parseFilteredPage :: "jsstr \<Rightarrow> bool \<Rightarrow> bool \<Rightarrow> pageParse" where
  "parseFilteredPage html usOnly vgPlus =
     (let st = foldl (processBlock usOnly vgPlus)
                 \<lparr>total = headerTotal html, listingsOnPage = 0, matched = 0, prices = [],
                  lowest = None\<rparr>
                 (tl (splitMarker html));
          st1 = (if \<not> hasPagination html \<and> listingsOnPage st > 0
                 then st\<lparr>total := listingsOnPage st\<rparr> else st)
      in if hasPagination html \<and> total st1 > 0
         then st1\<lparr>listingsOnPage := min (listingsOnPage st1) (total st1),
                  matched := min (matched st1) (total st1)\<rparr>
         else st1)"

subsection \<open>Facts about parseFilteredPage\<close>

text \<open>The blocks the loop visits (\<open>parts[1]\<close>, \<open>parts[2]\<close>, ...), those of them that are
  listings, and the listings that pass the filters.\<close>

definition blocksOf :: "jsstr \<Rightarrow> jsstr list" where
  "blocksOf html = tl (splitMarker html)"

definition listingBlocks :: "jsstr \<Rightarrow> jsstr list" where
  "listingBlocks html = filter validBlock (blocksOf html)"

definition matchedBlocks :: "bool \<Rightarrow> bool \<Rightarrow> jsstr \<Rightarrow> jsstr list" where
  "matchedBlocks usOnly vgPlus html = filter (passesFilters usOnly vgPlus) (listingBlocks html)"

lemma processBlock_cases:
  "processBlock us vg st b =
     (if \<not> validBlock b then st
      else if \<not> passesFilters us vg b then st\<lparr>listingsOnPage := listingsOnPage st + 1\<rparr>
      else (case priceLoop b 0 of
              None \<Rightarrow> st\<lparr>listingsOnPage := listingsOnPage st + 1, matched := matched st + 1\<rparr>
            | Some v \<Rightarrow>
                st\<lparr>listingsOnPage := listingsOnPage st + 1, matched := matched st + 1,
                   prices := prices st @ [v],
                   lowest := (case lowest st of
                                None \<Rightarrow> Some v
                              | Some l \<Rightarrow> if v < l then Some v else Some l)\<rparr>))"
  by (auto simp: processBlock_def validBlock_def passesFilters_def split: option.splits)

lemma fold_total: "total (foldl (processBlock us vg) st bs) = total st"
  by (induction bs arbitrary: st) (auto simp: processBlock_cases split: option.splits)

lemma fold_listings:
  "listingsOnPage (foldl (processBlock us vg) st bs) =
     listingsOnPage st + length (filter validBlock bs)"
  by (induction bs arbitrary: st) (auto simp: processBlock_cases split: option.splits)

lemma fold_matched:
  "matched (foldl (processBlock us vg) st bs) =
     matched st + length (filter (passesFilters us vg) (filter validBlock bs))"
  by (induction bs arbitrary: st) (auto simp: processBlock_cases split: option.splits)

lemma fold_prices:
  "prices (foldl (processBlock us vg) st bs) =
     prices st @
     List.map_filter (\<lambda>b. priceLoop b 0) (filter (passesFilters us vg) (filter validBlock bs))"
  by (induction bs arbitrary: st)
    (auto simp: processBlock_cases List.map_filter_simps split: option.splits)

definition lowestOf :: "real list \<Rightarrow> real option" where
  "lowestOf ps = (if ps = [] then None else Some (Min (set ps)))"

lemma lowestOf_snoc:
  "lowestOf (ps @ [v]) =
     (case lowestOf ps of None \<Rightarrow> Some v | Some l \<Rightarrow> if v < l then Some v else Some l)"
proof (cases "ps = []")
  case True
  then show ?thesis by (simp add: lowestOf_def)
next
  case False
  obtain m where m: "Min (set ps) = m" by simp
  from False have "Min (set (ps @ [v])) = min v (Min (set ps))" by simp
  with m have a: "lowestOf (ps @ [v]) = Some (min v m)" by (simp add: lowestOf_def)
  from False m have b: "lowestOf ps = Some m" by (simp add: lowestOf_def)
  show ?thesis unfolding a b by (simp add: min_def)
qed

lemma fold_lowest:
  "lowest st = lowestOf (prices st) \<Longrightarrow>
   lowest (foldl (processBlock us vg) st bs) =
     lowestOf (prices (foldl (processBlock us vg) st bs))"
proof (induction bs arbitrary: st)
  case Nil
  then show ?case by simp
next
  case (Cons b bs)
  have "lowest (processBlock us vg st b) = lowestOf (prices (processBlock us vg st b))"
    using Cons.prems by (auto simp: processBlock_cases lowestOf_snoc split: option.splits)
  then show ?case using Cons.IH by simp
qed

lemma parse_total:
  "total (parseFilteredPage html us vg) =
     (if hasPagination html then headerTotal html
      else if 0 < length (listingBlocks html) then length (listingBlocks html)
      else headerTotal html)"
  by (simp add: parseFilteredPage_def Let_def fold_total fold_listings listingBlocks_def
      blocksOf_def)

lemma parse_listings:
  "listingsOnPage (parseFilteredPage html us vg) =
     (if hasPagination html \<and> 0 < headerTotal html
      then min (length (listingBlocks html)) (headerTotal html)
      else length (listingBlocks html))"
  by (simp add: parseFilteredPage_def Let_def fold_total fold_listings listingBlocks_def
      blocksOf_def)

lemma parse_matched:
  "matched (parseFilteredPage html us vg) =
     (if hasPagination html \<and> 0 < headerTotal html
      then min (length (matchedBlocks us vg html)) (headerTotal html)
      else length (matchedBlocks us vg html))"
  by (simp add: parseFilteredPage_def Let_def fold_total fold_listings fold_matched
      listingBlocks_def matchedBlocks_def blocksOf_def)

lemma parse_prices:
  "prices (parseFilteredPage html us vg) =
     List.map_filter (\<lambda>b. priceLoop b 0) (matchedBlocks us vg html)"
  by (simp add: parseFilteredPage_def Let_def fold_prices listingBlocks_def matchedBlocks_def
      blocksOf_def)

lemma parse_lowest:
  "lowest (parseFilteredPage html us vg) = lowestOf (prices (parseFilteredPage html us vg))"
proof -
  let ?st0 = "\<lparr>total = headerTotal html, listingsOnPage = 0, matched = 0, prices = [],
              lowest = None\<rparr>"
  have "lowest ?st0 = lowestOf (prices ?st0)" by (simp add: lowestOf_def)
  then have "lowest (foldl (processBlock us vg) ?st0 (tl (splitMarker html))) =
      lowestOf (prices (foldl (processBlock us vg) ?st0 (tl (splitMarker html))))"
    by (rule fold_lowest)
  then show ?thesis by (simp add: parseFilteredPage_def Let_def)
qed

lemma splitMarker_length: "length (splitMarker s) = Suc (countMarkers s)"
proof (induction s rule: splitMarker.induct)
  case 1
  then show ?case by simp
next
  case (2 c cs)
  then show ?case by (auto split: option.splits list.splits)
qed

lemma no_marker_no_block: "countMarkers html = 0 \<Longrightarrow> blocksOf html = []"
proof -
  assume "countMarkers html = 0"
  then have "length (splitMarker html) = 1" by (simp add: splitMarker_length)
  then show ?thesis by (cases "splitMarker html") (auto simp: blocksOf_def)
qed

subsection \<open>The price of a listing, read off the text of its block\<close>

text \<open>
  The price loop is compared with a description of the price that speaks of the text of
  the block only, not of matches of the amount pattern. A dollar amount stands at
  position \<open>p\<close> when the code unit there is the dollar sign and a digit, comma or dot
  follows; its text is the longest run of digits, commas and dots behind the dollar sign,
  and its value is \<open>parseFloat\<close> of that text without the commas. The amount is
  prefixed with \<open>+\<close> when the code unit before the dollar sign is \<open>+\<close>. It is part of an
  \<open>about $X\<close> annotation when the text before the dollar sign ends with \<open>about\<close> and at
  least one white-space code unit. It is immediately preceded by \<open>shipping\<close> when the
  text before the dollar sign ends with \<open>shipping\<close>, in any letter case, and at most 12
  white-space code units.
\<close>

definition amountText :: "jsstr \<Rightarrow> nat \<Rightarrow> jsstr" where
  "amountText block p = takeWhile isAmountUnit (drop (Suc p) block)"

definition dollarAmountAt :: "jsstr \<Rightarrow> nat \<Rightarrow> bool" where
  "dollarAmountAt block p \<longleftrightarrow> p < length block \<and> block ! p = 36 \<and> amountText block p \<noteq> []"

definition plusPrefixed :: "jsstr \<Rightarrow> nat \<Rightarrow> bool" where
  "plusPrefixed block p \<longleftrightarrow> 0 < p \<and> block ! (p - 1) = 43"

definition aboutAnnotation :: "jsstr \<Rightarrow> nat \<Rightarrow> bool" where
  "aboutAnnotation block p \<longleftrightarrow>
     (let r = rev (take p block) in
      takeWhile isWs r \<noteq> [] \<and> startsWith (rev (js ''about'')) (dropWhile isWs r))"

definition afterShipping :: "jsstr \<Rightarrow> nat \<Rightarrow> bool" where
  "afterShipping block p \<longleftrightarrow>
     (let r = rev (take p block); k = length (takeWhile isWs r) in
      k \<le> 12 \<and> startsWith (rev (js ''shipping'')) (map foldCase (drop k r)))"

definition amountValue :: "jsstr \<Rightarrow> nat \<Rightarrow> real option" where
  "amountValue block p = parseFloat (filter (\<lambda>c. c \<noteq> 44) (amountText block p))"

text \<open>
  The amount that claim C7 names as it stands: the first dollar amount that is not
  prefixed with \<open>+\<close>, is not part of an \<open>about\<close> annotation and is not immediately
  preceded by the word \<open>shipping\<close>; the result is its position. The amount is preceded by
  the word when the text before the dollar sign, without the white space at its end, ends
  with \<open>shipping\<close> in any letter case, and no letter, digit or underscore stands before
  that.
\<close>

definition afterShippingWord :: "jsstr \<Rightarrow> nat \<Rightarrow> bool" where
  "afterShippingWord block p \<longleftrightarrow>
     (let r = dropWhile isWs (rev (take p block)) in
      startsWith (rev (js ''shipping'')) (map foldCase r) \<and> \<not> nextIsWord (drop 8 r))"

definition claimedAmount :: "jsstr \<Rightarrow> nat option" where
  "claimedAmount block =
     find (\<lambda>p. dollarAmountAt block p \<and> \<not> plusPrefixed block p \<and>
                \<not> aboutAnnotation block p \<and> \<not> afterShippingWord block p)
       [0..<length block]"

text \<open>
  The price of a block as the corrected claim words it: the value of the first dollar
  amount that passes the three tests and whose value is a number greater than 0; \<open>None\<close>
  when the block holds no such amount.
\<close>

definition eligible :: "jsstr \<Rightarrow> nat \<Rightarrow> bool" where
  "eligible block p \<longleftrightarrow>
     dollarAmountAt block p \<and> \<not> plusPrefixed block p \<and> \<not> aboutAnnotation block p \<and>
     \<not> afterShipping block p \<and>
     (case amountValue block p of None \<Rightarrow> False | Some v \<Rightarrow> positiveNumber v)"

definition claimedPrice :: "jsstr \<Rightarrow> real option" where
  "claimedPrice block =
     (case find (eligible block) [0..<length block] of
        None \<Rightarrow> None
      | Some p \<Rightarrow> amountValue block p)"

text \<open>What a match of the amount pattern at the head of a string looks like.\<close>

lemma lit_Some: "lit p s = Some r \<longleftrightarrow> s = p @ r"
  by (induction p s rule: lit.induct) auto

lemma many1_Some:
  "many1 P s = Some r \<longleftrightarrow> (\<exists>c cs. s = c # cs \<and> P c \<and> r = dropWhile P cs)"
  by (auto simp: many1_def split: list.splits)

lemma capture1_Some:
  "capture1 P t = Some cap \<longleftrightarrow> takeWhile P t \<noteq> [] \<and> cap = takeWhile P t"
  by (cases t) (auto simp: capture1_def)

lemma dollar_not_amount: "\<not> isAmountUnit 36" "\<not> isAmountUnit 43" "\<not> isWs 36"
  by (simp_all add: isAmountUnit_def isDigit_def isWs_def)

text \<open>The text between the plus sign and the dollar sign of a match: nothing, or \<open>about\<close>
  and white space.\<close>

definition aboutPart :: "jsstr \<Rightarrow> bool" where
  "aboutPart ab \<longleftrightarrow> ab = [] \<or> (\<exists>ws. ab = js ''about'' @ ws \<and> ws \<noteq> [] \<and> (\<forall>c \<in> set ws. isWs c))"

lemma many1_all:
  "many1 P s = Some r \<Longrightarrow> \<exists>ws. s = ws @ r \<and> ws \<noteq> [] \<and> (\<forall>c \<in> set ws. P c) \<and> (r = [] \<or> \<not> P (hd r))"
proof -
  assume "many1 P s = Some r"
  then obtain c cs where s: "s = c # cs" and c: "P c" and r: "r = dropWhile P cs"
    by (auto simp: many1_Some)
  have "s = (c # takeWhile P cs) @ r" using s r by simp
  moreover have "\<forall>x \<in> set (c # takeWhile P cs). P x" using c by (auto dest: set_takeWhileD)
  moreover have "r = [] \<or> \<not> P (hd r)" using r by (metis hd_dropWhile)
  ultimately show ?thesis by blast
qed

lemma aboutStep:
  "(case do { r \<leftarrow> lit (js ''about'') s1; many1 isWs r } of Some r \<Rightarrow> r | None \<Rightarrow> s1) = s2 \<Longrightarrow>
   \<exists>ab. s1 = ab @ s2 \<and> aboutPart ab"
proof (cases "do { r \<leftarrow> lit (js ''about'') s1; many1 isWs r }")
  case None
  assume "(case do { r \<leftarrow> lit (js ''about'') s1; many1 isWs r } of Some r \<Rightarrow> r | None \<Rightarrow> s1) = s2"
  with None have "s1 = [] @ s2" by simp
  then show ?thesis unfolding aboutPart_def by blast
next
  case (Some r)
  assume "(case do { r \<leftarrow> lit (js ''about'') s1; many1 isWs r } of Some r \<Rightarrow> r | None \<Rightarrow> s1) = s2"
  with Some have r: "r = s2" by simp
  from Some obtain r1 where a: "lit (js ''about'') s1 = Some r1" and b: "many1 isWs r1 = Some r"
    by (auto split: Option.bind_splits)
  from a have s1: "s1 = js ''about'' @ r1" by (simp add: lit_Some)
  from many1_all [OF b] obtain ws where "r1 = ws @ r" "ws \<noteq> []" "\<forall>c \<in> set ws. isWs c"
    by blast
  with s1 r have "s1 = (js ''about'' @ ws) @ s2" "aboutPart (js ''about'' @ ws)"
    by (auto simp: aboutPart_def)
  then show ?thesis by blast
qed

lemma priceAt_Some:
  assumes "priceAt s = Some (pl, cap, n)"
  shows "\<exists>ab rest. s = (if pl then [43] else []) @ ab @ 36 # rest \<and> aboutPart ab \<and>
           cap = takeWhile isAmountUnit rest \<and> cap \<noteq> [] \<and>
           n = length ((if pl then [43] else []) @ ab) + 1 + length cap"
proof -
  define p0 where "p0 = (s \<noteq> [] \<and> hd s = 43)"
  define s1 where "s1 = (if p0 then tl s else s)"
  define s2 where "s2 = (case do { r \<leftarrow> lit (js ''about'') s1; many1 isWs r } of
                  Some r \<Rightarrow> r | None \<Rightarrow> s1)"
  have eq: "priceAt s =
      (case s2 of
           [] \<Rightarrow> None
         | c # t \<Rightarrow>
             if c = 36 then
               (case capture1 isAmountUnit t of
                  Some cap \<Rightarrow> Some (p0, cap, length s - length t + length cap)
                | None \<Rightarrow> None)
             else None)"
    unfolding priceAt_def Let_def s2_def s1_def p0_def ..
  from assms eq obtain c t where s2: "s2 = c # t"
    by (cases s2) auto
  with assms eq have c: "c = 36" by (auto split: if_splits)
  from assms eq s2 c obtain cap0 where c0: "capture1 isAmountUnit t = Some cap0"
    by (cases "capture1 isAmountUnit t") auto
  with assms eq s2 c have p: "pl = p0" and cc: "cap0 = cap"
    and n: "n = length s - length t + length cap" by auto
  from s2_def obtain ab where ab: "s1 = ab @ s2" "aboutPart ab"
    using aboutStep [of s1 s2] by blast
  have s: "s = (if pl then [43] else []) @ s1"
    unfolding s1_def p p0_def by (cases s) auto
  from c0 cc have cap: "cap = takeWhile isAmountUnit t" "cap \<noteq> []"
    by (auto simp: capture1_Some)
  from s ab s2 c have e: "s = ((if pl then [43] else []) @ ab) @ 36 # t" by simp
  have "length s = length ((if pl then [43] else []) @ ab) + 1 + length t"
    using arg_cong [OF e, of length] by simp
  then have "length s - length t = length ((if pl then [43] else []) @ ab) + 1"
    by simp
  with n e ab cap show ?thesis by auto
qed

text \<open>Where a dollar amount stands, the amount pattern matches; so it does one code unit
  earlier behind a \<open>+\<close>, and at the \<open>about\<close> of an annotation.\<close>

lemma capture1_eq: "takeWhile P t \<noteq> [] \<Longrightarrow> capture1 P t = Some (takeWhile P t)"
  by (simp add: capture1_Some)

lemma lit_about_dollar: "lit (js ''about'') (36 # rest) = None"
  by (simp add: js_def)

lemma priceAt_bare:
  "takeWhile isAmountUnit rest \<noteq> [] \<Longrightarrow>
   priceAt (36 # rest) =
     Some (False, takeWhile isAmountUnit rest, 1 + length (takeWhile isAmountUnit rest))"
  by (simp add: priceAt_def lit_about_dollar capture1_eq)

lemma priceAt_plus:
  "takeWhile isAmountUnit rest \<noteq> [] \<Longrightarrow> priceAt (43 # 36 # rest) \<noteq> None"
  by (simp add: priceAt_def lit_about_dollar capture1_eq)

lemma many1_run:
  "ws \<noteq> [] \<Longrightarrow> \<forall>c \<in> set ws. P c \<Longrightarrow> \<not> P y \<Longrightarrow> many1 P (ws @ y # ys) = Some (y # ys)"
proof -
  assume a: "ws \<noteq> []" "\<forall>c \<in> set ws. P c" "\<not> P y"
  then obtain c cs where ws: "ws = c # cs" by (cases ws) auto
  with a have "dropWhile P (cs @ y # ys) = y # ys"
    by (simp add: dropWhile_append3 dropWhile_eq_Nil_conv)
  with ws a show ?thesis by (simp add: many1_def)
qed

lemma priceAt_about:
  assumes "ws \<noteq> []" "\<forall>c \<in> set ws. isWs c" "takeWhile isAmountUnit rest \<noteq> []"
  shows "priceAt (js ''about'' @ ws @ 36 # rest) \<noteq> None"
proof -
  have l: "lit (js ''about'') (js ''about'' @ ws @ 36 # rest) = Some (ws @ 36 # rest)"
    by (simp add: lit_Some)
  have m: "many1 isWs (ws @ 36 # rest) = Some (36 # rest)"
    using assms(1,2) by (rule many1_run) (simp add: dollar_not_amount)
  have h: "js ''about'' @ ws @ 36 # rest \<noteq> []" "hd (js ''about'' @ ws @ 36 # rest) \<noteq> 43"
    by (simp_all add: js_def)
  show ?thesis
    unfolding priceAt_def Let_def using h assms(3)
    by (simp add: l m capture1_eq)
qed

lemma execFrom_None:
  "execFrom b i = None \<Longrightarrow> i \<le> j \<Longrightarrow> j \<le> length b \<Longrightarrow> priceAt (drop j b) = None"
proof (induction b i rule: execFrom.induct)
  case (1 block i)
  from 1(2,3,4) have n: "priceAt (drop i block) = None"
    by (auto simp: execFrom.simps [of block i] split: if_splits option.splits)
  show ?case
  proof (cases "j = i")
    case True
    with n show ?thesis by simp
  next
    case False
    with 1(3,4) have l: "i < length block" "Suc i \<le> j" by auto
    with 1(2) n have "execFrom block (Suc i) = None"
      by (auto simp: execFrom.simps [of block i] split: if_splits option.splits)
    with 1(1) n l 1(4) show ?thesis by auto
  qed
qed

lemma execFrom_Some:
  "execFrom b i = Some pm \<Longrightarrow>
   i \<le> index pm \<and> index pm \<le> length b \<and>
   (\<exists>pl cap n. priceAt (drop (index pm) b) = Some (pl, cap, n) \<and>
      whole pm = take n (drop (index pm) b) \<and> plusGroup pm = pl \<and> amount pm = cap) \<and>
   (\<forall>j. i \<le> j \<and> j < index pm \<longrightarrow> priceAt (drop j b) = None)"
proof (induction b i rule: execFrom.induct)
  case (1 block i)
  show ?case
  proof (cases "priceAt (drop i block)")
    case None
    with 1(2) have l: "i < length block" and e: "execFrom block (Suc i) = Some pm"
      by (auto simp: execFrom.simps [of block i] split: if_splits)
    from 1(1) None l e have ih: "Suc i \<le> index pm \<and> index pm \<le> length block \<and>
       (\<exists>pl cap n. priceAt (drop (index pm) block) = Some (pl, cap, n) \<and>
          whole pm = take n (drop (index pm) block) \<and> plusGroup pm = pl \<and> amount pm = cap) \<and>
       (\<forall>j. Suc i \<le> j \<and> j < index pm \<longrightarrow> priceAt (drop j block) = None)"
      by auto
    have "\<forall>j. i \<le> j \<and> j < index pm \<longrightarrow> priceAt (drop j block) = None"
    proof (intro allI impI)
      fix j assume j: "i \<le> j \<and> j < index pm"
      show "priceAt (drop j block) = None"
      proof (cases "j = i")
        case True with None show ?thesis by simp
      next
        case False
        with j ih show ?thesis by auto
      qed
    qed
    with ih show ?thesis by auto
  next
    case (Some m)
    obtain pl cap n where m: "m = (pl, cap, n)" by (cases m)
    from 1(2) Some m have l: "i \<le> length block"
      and pm: "pm = \<lparr>index = i, whole = take n (drop i block), plusGroup = pl, amount = cap\<rparr>"
      by (auto simp: execFrom.simps [of block i] split: if_splits)
    with Some m show ?thesis by auto
  qed
qed

text \<open>The test \<open>/shipping\s*$/i\<close> on the 20 code units before a position.\<close>

lemma litCI_Some:
  "litCI p s = Some r \<longleftrightarrow>
     (\<exists>y. s = y @ r \<and> length y = length p \<and> map foldCase y = map foldCase p)"
proof (induction p s rule: litCI.induct)
  case (1 s)
  then show ?case by auto
next
  case (2 p ps)
  then show ?case by auto
next
  case (3 p ps c cs)
  show ?case
  proof (cases "foldCase p = foldCase c")
    case False
    then show ?thesis by (auto simp: Cons_eq_append_conv)
  next
    case True
    have "(\<exists>y. c # cs = y @ r \<and> length y = length (p # ps) \<and>
             map foldCase y = map foldCase (p # ps)) \<longleftrightarrow>
          (\<exists>y'. cs = y' @ r \<and> length y' = length ps \<and> map foldCase y' = map foldCase ps)"
    proof
      assume "\<exists>y. c # cs = y @ r \<and> length y = length (p # ps) \<and>
             map foldCase y = map foldCase (p # ps)"
      then obtain y where y: "c # cs = y @ r" "length y = length (p # ps)"
        "map foldCase y = map foldCase (p # ps)" by blast
      then obtain y' where "y = c # y'" by (cases y) auto
      with y show "\<exists>y'. cs = y' @ r \<and> length y' = length ps \<and> map foldCase y' = map foldCase ps"
        by auto
    next
      assume "\<exists>y'. cs = y' @ r \<and> length y' = length ps \<and> map foldCase y' = map foldCase ps"
      then obtain y' where "cs = y' @ r" "length y' = length ps"
        "map foldCase y' = map foldCase ps" by blast
      with True have "c # cs = (c # y') @ r \<and> length (c # y') = length (p # ps) \<and>
             map foldCase (c # y') = map foldCase (p # ps)" by simp
      then show "\<exists>y. c # cs = y @ r \<and> length y = length (p # ps) \<and>
             map foldCase y = map foldCase (p # ps)" by blast
    qed
    with True 3 show ?thesis by simp
  qed
qed

lemma firstMatch_ex: "firstMatch f s \<noteq> None \<longleftrightarrow> (\<exists>x y. s = x @ y \<and> f y \<noteq> None)"
proof (induction s)
  case Nil
  then show ?case by simp
next
  case (Cons c cs)
  show ?case
  proof (cases "f (c # cs)")
    case (Some r)
    then have "c # cs = [] @ (c # cs) \<and> f (c # cs) \<noteq> None" by simp
    then have "\<exists>x y. c # cs = x @ y \<and> f y \<noteq> None" by blast
    with Some show ?thesis by simp
  next
    case None
    have "(\<exists>x y. c # cs = x @ y \<and> f y \<noteq> None) \<longleftrightarrow> (\<exists>x y. cs = x @ y \<and> f y \<noteq> None)"
    proof
      assume "\<exists>x y. c # cs = x @ y \<and> f y \<noteq> None"
      then obtain x y where xy: "c # cs = x @ y" "f y \<noteq> None" by blast
      with None obtain x' where "x = c # x'" by (cases x) auto
      with xy show "\<exists>x y. cs = x @ y \<and> f y \<noteq> None" by auto
    next
      assume "\<exists>x y. cs = x @ y \<and> f y \<noteq> None"
      then obtain x y where "cs = x @ y" "f y \<noteq> None" by blast
      then have "c # cs = (c # x) @ y \<and> f y \<noteq> None" by simp
      then show "\<exists>x y. c # cs = x @ y \<and> f y \<noteq> None" by blast
    qed
    with None Cons show ?thesis by simp
  qed
qed

lemma fold_shipping: "map foldCase (js ''shipping'') = js ''shipping''"
  by (simp add: js_def foldCase_def isUpper_def)

lemma endsWithShipping_iff:
  "endsWithShipping u \<longleftrightarrow>
     (\<exists>x y r. u = x @ y @ r \<and> map foldCase y = js ''shipping'' \<and> (\<forall>c \<in> set r. isWs c))"
proof -
  let ?f = "\<lambda>s. case litCI (js ''shipping'') s of
                        None \<Rightarrow> None
                      | Some r \<Rightarrow> if dropWhile isWs r = [] then Some r else None"
  have f: "\<And>s. ?f s \<noteq> None \<longleftrightarrow>
      (\<exists>y r. s = y @ r \<and> map foldCase y = js ''shipping'' \<and> (\<forall>c \<in> set r. isWs c))"
  proof -
    fix s
    show "?f s \<noteq> None \<longleftrightarrow>
      (\<exists>y r. s = y @ r \<and> map foldCase y = js ''shipping'' \<and> (\<forall>c \<in> set r. isWs c))"
    proof
      assume "?f s \<noteq> None"
      then obtain r where r: "litCI (js ''shipping'') s = Some r" "dropWhile isWs r = []"
        by (auto split: option.splits if_splits)
      then obtain y where "s = y @ r" "map foldCase y = map foldCase (js ''shipping'')"
        by (auto simp: litCI_Some)
      with r show "\<exists>y r. s = y @ r \<and> map foldCase y = js ''shipping'' \<and> (\<forall>c \<in> set r. isWs c)"
        by (auto simp: fold_shipping dropWhile_eq_Nil_conv)
    next
      assume "\<exists>y r. s = y @ r \<and> map foldCase y = js ''shipping'' \<and> (\<forall>c \<in> set r. isWs c)"
      then obtain y r where yr: "s = y @ r" "map foldCase y = js ''shipping''"
        "\<forall>c \<in> set r. isWs c" by blast
      from yr(2) have "length (map foldCase y) = length (js ''shipping'')" by simp
      then have "length y = length (js ''shipping'')" by simp
      with yr have "litCI (js ''shipping'') s = Some r"
        unfolding litCI_Some by (auto simp: fold_shipping)
      with yr(3) show "?f s \<noteq> None" by (simp add: dropWhile_eq_Nil_conv)
    qed
  qed
  have "endsWithShipping u \<longleftrightarrow> (\<exists>x s. u = x @ s \<and> ?f s \<noteq> None)"
    unfolding endsWithShipping_def by (rule firstMatch_ex)
  also have "\<dots> \<longleftrightarrow>
     (\<exists>x y r. u = x @ y @ r \<and> map foldCase y = js ''shipping'' \<and> (\<forall>c \<in> set r. isWs c))"
    unfolding f by blast
  finally show ?thesis .
qed

lemma ws_not_g: "isWs c \<Longrightarrow> foldCase c \<noteq> 103"
  by (auto simp: isWs_def foldCase_def isUpper_def)

lemma afterShipping_iff:
  assumes p: "p \<le> length b"
  shows "endsWithShipping (textBefore b p) \<longleftrightarrow> afterShipping b p"
proof
  define t where "t = take p b"
  define h where "h = take (p - 20) t"
  define u where "u = drop (p - 20) t"
  assume "endsWithShipping (textBefore b p)"
  then obtain x y r where u: "u = x @ y @ r" and y: "map foldCase y = js ''shipping''"
    and r: "\<forall>c \<in> set r. isWs c"
    unfolding textBefore_def endsWithShipping_iff u_def t_def by blast
  have "length (map foldCase y) = 8" unfolding y by (simp add: js_def)
  then have ly: "length y = 8" by simp
  then have yn: "y \<noteq> []" by auto
  have "last (map foldCase y) = 103" unfolding y by (simp add: js_def)
  with yn have "foldCase (last y) = 103" by (simp add: last_map)
  with ws_not_g have nl: "\<not> isWs (last y)" by blast
  have "t = h @ u" unfolding h_def u_def by simp
  with u have t: "t = h @ x @ y @ r" by simp
  define z where "z = rev x @ rev h"
  have rt: "rev t = rev r @ rev y @ z" unfolding t z_def by simp
  from yn obtain y0 where "y = y0 @ [last y]" by (metis append_butlast_last_id)
  then have ry: "rev y = last y # rev y0" by (metis rev.simps(2) rev_rev_ident rev_swap)
  have tw: "takeWhile isWs (rev t) = rev r"
    unfolding rt ry by (subst takeWhile_append2) (use r nl in auto)
  have "length t = p" unfolding t_def using p by simp
  then have "length u \<le> 20" unfolding u_def by simp
  with ly have k: "length r \<le> 12" unfolding u by simp
  have "drop (length (rev r)) (rev t) = rev y @ z" unfolding rt by simp
  then have "map foldCase (drop (length r) (rev t)) = rev (map foldCase y) @ map foldCase z"
    by (simp add: rev_map)
  then have "take (length (rev (js ''shipping''))) (map foldCase (drop (length r) (rev t))) =
      rev (js ''shipping'')"
    unfolding y by simp
  then have "startsWith (rev (js ''shipping'')) (map foldCase (drop (length r) (rev t)))"
    unfolding startsWith_take .
  with tw k show "afterShipping b p"
    by (simp add: afterShipping_def Let_def t_def)
next
  define t where "t = take p b"
  define r where "r = rev t"
  define k where "k = length (takeWhile isWs r)"
  assume "afterShipping b p"
  then have k: "k \<le> 12"
    and s: "startsWith (rev (js ''shipping'')) (map foldCase (drop k r))"
    by (simp_all add: afterShipping_def Let_def k_def r_def t_def)
  define y' where "y' = take 8 (drop k r)"
  define z where "z = drop 8 (drop k r)"
  have l8: "length (rev (js ''shipping'')) = 8" by (simp add: js_def)
  from s have tk: "take 8 (map foldCase (drop k r)) = rev (js ''shipping'')"
    unfolding startsWith_take l8 .
  then have fy: "map foldCase y' = rev (js ''shipping'')"
    by (simp add: y'_def take_map)
  have "length (map foldCase y') = 8" unfolding fy by (rule l8)
  then have ly: "length y' = 8" by simp
  have d: "drop k r = y' @ z" unfolding y'_def z_def by (simp only: append_take_drop_id)
  have "r = takeWhile isWs r @ drop k r"
    unfolding k_def by (metis append_take_drop_id takeWhile_eq_take)
  with d have r: "r = takeWhile isWs r @ y' @ z" by simp
  define ws where "ws = rev (takeWhile isWs r)"
  have wsall: "\<forall>c \<in> set ws. isWs c" by (auto simp: ws_def dest: set_takeWhileD)
  have lws: "length ws = k" by (simp add: ws_def k_def)
  have "rev r = rev z @ rev y' @ ws"
    by (subst r) (simp add: ws_def)
  then have t: "t = rev z @ rev y' @ ws" by (simp add: r_def)
  from p have lt: "length t = p" by (simp add: t_def)
  have lp: "p = length z + 8 + k"
    unfolding lt [symmetric] by (subst t) (simp add: ly lws)
  with k have "p - 20 \<le> length (rev z)" by simp
  then have "drop (p - 20) t = drop (p - 20) (rev z) @ rev y' @ ws"
    by (subst t) simp
  moreover have "map foldCase (rev y') = js ''shipping''"
    by (simp add: rev_map [symmetric] fy)
  ultimately show "endsWithShipping (textBefore b p)"
    unfolding textBefore_def endsWithShipping_iff t_def using wsall by blast
qed

text \<open>The search of the loop, match by match.\<close>

lemma find_append_list:
  "find P (xs @ ys) = (case find P xs of None \<Rightarrow> find P ys | Some x \<Rightarrow> Some x)"
  by (induction xs) auto

lemma find_upt_skip:
  assumes "i \<le> k" "k \<le> n" "\<forall>j. i \<le> j \<and> j < k \<longrightarrow> \<not> P j"
  shows "find P [i..<n] = find P [k..<n]"
proof -
  from assms(1,2) have "[i..<n] = [i..<k] @ [k..<n]"
    by (metis le_Suc_ex upt_add_eq_append)
  moreover from assms(3) have "find P [i..<k] = None" by (simp add: find_None_iff)
  ultimately show ?thesis by (simp add: find_append_list)
qed

lemma find_upt_first:
  "k < n \<Longrightarrow> find P [k..<n] = (if P k then Some k else find P [Suc k..<n])"
  by (simp add: upt_conv_Cons)

lemma amount_run:
  assumes "dollarAmountAt b p"
  shows "Suc p + length (amountText b p) \<le> length b"
    and "\<forall>j. Suc p \<le> j \<and> j < Suc p + length (amountText b p) \<longrightarrow> isAmountUnit (b ! j)"
proof -
  from assms have p: "p < length b" by (simp add: dollarAmountAt_def)
  have "length (amountText b p) \<le> length (drop (Suc p) b)"
    unfolding amountText_def by (rule length_takeWhile_le)
  with p show l: "Suc p + length (amountText b p) \<le> length b" by simp
  show "\<forall>j. Suc p \<le> j \<and> j < Suc p + length (amountText b p) \<longrightarrow> isAmountUnit (b ! j)"
  proof (intro allI impI)
    fix j assume j: "Suc p \<le> j \<and> j < Suc p + length (amountText b p)"
    define m where "m = j - Suc p"
    from j have m: "m < length (amountText b p)" and jm: "j = Suc p + m" by (auto simp: m_def)
    then have "amountText b p ! m \<in> set (amountText b p)" by simp
    then have "isAmountUnit (amountText b p ! m)"
      unfolding amountText_def by (rule set_takeWhileD [THEN conjunct2])
    moreover from m have "amountText b p ! m = drop (Suc p) b ! m"
      unfolding amountText_def by (rule takeWhile_nth)
    moreover from l jm m have "drop (Suc p) b ! m = b ! j" by simp
    ultimately show "isAmountUnit (b ! j)" by simp
  qed
qed

lemma dollar_priceAt: "dollarAmountAt b j \<Longrightarrow> priceAt (drop j b) \<noteq> None"
proof -
  assume a: "dollarAmountAt b j"
  then have "drop j b = 36 # drop (Suc j) b"
    by (metis Cons_nth_drop_Suc dollarAmountAt_def)
  moreover from a have "takeWhile isAmountUnit (drop (Suc j) b) \<noteq> []"
    by (simp add: dollarAmountAt_def amountText_def)
  ultimately show ?thesis by (simp add: priceAt_bare)
qed

lemma ws_units: "isWs c \<Longrightarrow> c \<noteq> 36 \<and> \<not> isAmountUnit c"
  by (auto simp: isWs_def isAmountUnit_def isDigit_def)

lemma about_units: "c \<in> set (js ''about'') \<Longrightarrow> c \<noteq> 36 \<and> \<not> isAmountUnit c"
  by (auto simp: js_def isAmountUnit_def isDigit_def)

lemma aboutPart_units:
  assumes "aboutPart ab" "c \<in> set ab"
  shows "c \<noteq> 36 \<and> \<not> isAmountUnit c"
proof -
  from assms obtain ws where "ab = js ''about'' @ ws" "\<forall>c \<in> set ws. isWs c"
    by (auto simp: aboutPart_def)
  with assms(2) have "c \<in> set (js ''about'') \<or> isWs c" by auto
  then show ?thesis using ws_units about_units by blast
qed

lemma indexOf_head: "s \<noteq> [] \<Longrightarrow> indexOf s (s @ r) = Some 0"
  by (cases s) (auto simp: startsWith_take)

lemma indexOf_absent: "sep \<noteq> [] \<Longrightarrow> hd sep \<notin> set s \<Longrightarrow> indexOf sep s = None"
proof (induction s)
  case Nil
  then show ?case by simp
next
  case (Cons c cs)
  then have "\<not> startsWith sep (c # cs)" by (cases sep) auto
  with Cons show ?case by simp
qed

lemma match_position:
  assumes e: "execFrom b i = Some pm"
  shows "\<exists>pl ab rest.
           drop (index pm) b = (if pl then [43] else []) @ ab @ 36 # rest \<and> aboutPart ab \<and>
           plusGroup pm = pl \<and> amount pm = takeWhile isAmountUnit rest \<and> amount pm \<noteq> [] \<and>
           whole pm = (if pl then [43] else []) @ ab @ 36 # amount pm"
proof -
  from execFrom_Some [OF e] obtain pl cap n where
    pa: "priceAt (drop (index pm) b) = Some (pl, cap, n)"
    and w: "whole pm = take n (drop (index pm) b)" and g: "plusGroup pm = pl"
    and a: "amount pm = cap" by blast
  from priceAt_Some [OF pa] obtain ab rest where
    d: "drop (index pm) b = (if pl then [43] else []) @ ab @ 36 # rest" and ab: "aboutPart ab"
    and cap: "cap = takeWhile isAmountUnit rest" "cap \<noteq> []"
    and n: "n = length ((if pl then [43] else []) @ ab) + 1 + length cap" by blast
  define pre where "pre = (if pl then [43] else []) @ ab"
  have "rest = cap @ dropWhile isAmountUnit rest" unfolding cap by simp
  then have "drop (index pm) b = (pre @ 36 # cap) @ dropWhile isAmountUnit rest"
    unfolding d pre_def by simp
  moreover have "n = length (pre @ 36 # cap)" unfolding n pre_def by simp
  ultimately have "take n (drop (index pm) b) = pre @ 36 # cap" by simp
  with w have "whole pm = (if pl then [43] else []) @ ab @ 36 # cap" by (simp add: pre_def)
  with d ab g a cap show ?thesis by blast
qed

lemma startsWith_append: "startsWith p s \<Longrightarrow> \<exists>z. s = p @ z"
  by (metis append_take_drop_id startsWith_take)

lemma annotation_about:
  assumes "aboutAnnotation b p"
  shows "\<exists>x ws. take p b = x @ js ''about'' @ ws \<and> ws \<noteq> [] \<and> (\<forall>c \<in> set ws. isWs c)"
proof -
  define r where "r = rev (take p b)"
  from assms have w: "takeWhile isWs r \<noteq> []"
    and s: "startsWith (rev (js ''about'')) (dropWhile isWs r)"
    by (simp_all add: aboutAnnotation_def Let_def r_def)
  from s obtain z where z: "dropWhile isWs r = rev (js ''about'') @ z"
    using startsWith_append by blast
  have "r = takeWhile isWs r @ dropWhile isWs r" by simp
  with z have "r = takeWhile isWs r @ rev (js ''about'') @ z" by simp
  then have "rev r = rev z @ js ''about'' @ rev (takeWhile isWs r)"
    by (metis rev_append rev_rev_ident append_assoc)
  moreover have "\<forall>c \<in> set (rev (takeWhile isWs r)). isWs c" by (auto dest: set_takeWhileD)
  moreover from w have "rev (takeWhile isWs r) \<noteq> []" by simp
  ultimately show ?thesis unfolding r_def by (metis rev_rev_ident)
qed

lemma no_about_before:
  assumes dp: "drop p b = 36 # rest" and tr: "takeWhile isAmountUnit rest \<noteq> []"
    and pl: "p < length b" and ip: "i \<le> p" and inv: "i = 0 \<or> isAmountUnit (b ! (i - 1))"
    and least: "\<forall>j. i \<le> j \<and> j < p \<longrightarrow> priceAt (drop j b) = None"
  shows "\<not> aboutAnnotation b p"
proof
  assume "aboutAnnotation b p"
  then obtain x ws where x: "take p b = x @ js ''about'' @ ws" and wn: "ws \<noteq> []"
    and wa: "\<forall>c \<in> set ws. isWs c" using annotation_about by blast
  define j where "j = length x"
  define m where "m = js ''about'' @ ws"
  have "b = take p b @ drop p b" by simp
  then have bj: "b = x @ m @ 36 # rest" unfolding x dp m_def by simp
  have "length (take p b) = p" using pl by simp
  then have lm: "j + length m = p" unfolding x j_def m_def by simp
  have "0 < length m" by (simp add: m_def js_def)
  with lm have jp: "j < p" by arith
  have "drop (length x) (x @ m @ 36 # rest) = m @ 36 # rest" by simp
  then have dj: "drop j b = js ''about'' @ ws @ 36 # rest"
    unfolding bj [symmetric] j_def [symmetric] by (simp add: m_def)
  have pj: "priceAt (drop j b) \<noteq> None"
    unfolding dj by (rule priceAt_about [OF wn wa tr])
  have "\<not> i \<le> j"
  proof
    assume "i \<le> j"
    with least jp have "priceAt (drop j b) = None" by simp
    with pj show False ..
  qed
  then have ji: "j \<le> i - 1" "0 < i" by simp_all
  from ip ji lm have k: "i - 1 - j < length m" by arith
  have "(x @ m @ 36 # rest) ! (length x + (i - 1 - j)) = (m @ 36 # rest) ! (i - 1 - j)"
    by (rule nth_append_length_plus)
  moreover from ji have "length x + (i - 1 - j) = i - 1" by (simp add: j_def)
  ultimately have "b ! (i - 1) = (m @ 36 # rest) ! (i - 1 - j)"
    unfolding bj [symmetric] by simp
  with k have "b ! (i - 1) = m ! (i - 1 - j)" by (simp add: nth_append)
  with k have "b ! (i - 1) \<in> set m" by (metis nth_mem)
  then have "b ! (i - 1) \<in> set (js ''about'') \<or> isWs (b ! (i - 1))"
    using wa by (auto simp: m_def)
  then have "\<not> isAmountUnit (b ! (i - 1))" using ws_units about_units by blast
  with inv ji show False by simp
qed

lemma takeWhile_run:
  "\<forall>c \<in> set ws. P c \<Longrightarrow> \<not> P y \<Longrightarrow> takeWhile P (ws @ y # ys) = ws"
  by (subst takeWhile_append2) auto

lemma dropWhile_run:
  "\<forall>c \<in> set ws. P c \<Longrightarrow> \<not> P y \<Longrightarrow> dropWhile P (ws @ y # ys) = y # ys"
  by (subst dropWhile_append2) auto

lemma rev_about: "rev (js ''about'') = 116 # rev (js ''abou'')" "\<not> isWs 116"
  by (simp_all add: js_def isWs_def)

lemma about_annotation:
  assumes "take p b = x @ js ''about'' @ ws" "ws \<noteq> []" "\<forall>c \<in> set ws. isWs c"
  shows "aboutAnnotation b p"
proof -
  have r: "rev (take p b) = rev ws @ 116 # (rev (js ''abou'') @ rev x)"
    unfolding assms(1) by (simp add: rev_about)
  have a: "\<forall>c \<in> set (rev ws). isWs c" using assms(3) by simp
  have t: "takeWhile isWs (rev (take p b)) = rev ws"
    unfolding r using a rev_about(2) by (rule takeWhile_run)
  have d: "dropWhile isWs (rev (take p b)) = 116 # (rev (js ''abou'') @ rev x)"
    unfolding r using a rev_about(2) by (rule dropWhile_run)
  have "startsWith (rev (js ''about'')) (116 # (rev (js ''abou'') @ rev x))"
    by (simp add: startsWith_take js_def)
  with t d assms(2) show ?thesis by (simp add: aboutAnnotation_def Let_def)
qed

lemma no_plus_before:
  assumes dp: "drop p b = 36 # rest" and tr: "takeWhile isAmountUnit rest \<noteq> []"
    and pl: "p < length b" and ip: "i \<le> p" and inv: "i = 0 \<or> isAmountUnit (b ! (i - 1))"
    and least: "\<forall>j. i \<le> j \<and> j < p \<longrightarrow> priceAt (drop j b) = None"
  shows "\<not> plusPrefixed b p"
proof
  assume "plusPrefixed b p"
  then have p0: "0 < p" and b43: "b ! (p - 1) = 43" by (simp_all add: plusPrefixed_def)
  from p0 pl have "p - 1 < length b" "Suc (p - 1) = p" by simp_all
  then have "drop (p - 1) b = b ! (p - 1) # drop p b"
    using Cons_nth_drop_Suc [of "p - 1" b] by simp
  with b43 dp have d: "drop (p - 1) b = 43 # 36 # rest" by simp
  have pj: "priceAt (drop (p - 1) b) \<noteq> None"
    unfolding d by (rule priceAt_plus [OF tr])
  have "\<not> i \<le> p - 1"
  proof
    assume "i \<le> p - 1"
    with least p0 have "priceAt (drop (p - 1) b) = None" by simp
    with pj show False ..
  qed
  with ip have "i = p" by simp
  with inv p0 b43 show False by (simp add: dollar_not_amount)
qed

lemma match_on_text:
  assumes i: "i \<le> length b" and inv: "i = 0 \<or> isAmountUnit (b ! (i - 1))"
    and e: "execFrom b i = Some pm"
  shows "\<exists>p. i \<le> p \<and> dollarAmountAt b p \<and> (\<forall>j. i \<le> j \<and> j < p \<longrightarrow> \<not> dollarAmountAt b j) \<and>
            index pm + length (whole pm) = Suc p + length (amountText b p) \<and>
            acceptedValue b pm = (if eligible b p then amountValue b p else None)"
proof -
  define q where "q = index pm"
  from execFrom_Some [OF e] have iq: "i \<le> q" "q \<le> length b"
    and least: "\<forall>j. i \<le> j \<and> j < q \<longrightarrow> priceAt (drop j b) = None"
    unfolding q_def by simp_all
  from match_position [OF e] obtain pl ab rest where
    d: "drop q b = (if pl then [43] else []) @ ab @ 36 # rest" and ab: "aboutPart ab"
    and g: "plusGroup pm = pl" and am: "amount pm = takeWhile isAmountUnit rest"
    and ne: "amount pm \<noteq> []"
    and w: "whole pm = (if pl then [43] else []) @ ab @ 36 # amount pm"
    unfolding q_def by blast
  define pre where "pre = (if pl then [43] else []) @ ab"
  define h where "h = take q b"
  define p where "p = q + length pre"
  have lh: "length h = q" unfolding h_def using iq by simp
  have "b = h @ drop q b" unfolding h_def by simp
  then have b: "b = (h @ pre) @ 36 # rest" unfolding d pre_def by simp
  have lhp: "length (h @ pre) = p" unfolding p_def using lh by simp
  have pl: "p < length b" by (subst b) (simp add: lhp [symmetric])
  have bp: "b ! p = 36" by (subst b) (simp add: lhp [symmetric] nth_append)
  have dr: "drop (Suc p) b = rest" by (subst b) (simp add: lhp [symmetric])
  have tp: "take p b = h @ pre" by (subst b) (simp add: lhp [symmetric])
  have at: "amountText b p = amount pm" unfolding amountText_def dr am ..
  from pl bp at ne have da: "dollarAmountAt b p" by (simp add: dollarAmountAt_def)
  have "length (whole pm) = length pre + 1 + length (amount pm)"
    unfolding w pre_def by simp
  then have len: "index pm + length (whole pm) = Suc p + length (amountText b p)"
    unfolding at by (simp add: p_def q_def)
  have units: "\<forall>c \<in> set pre. c \<noteq> 36 \<and> \<not> isAmountUnit c"
    unfolding pre_def using aboutPart_units [OF ab] by (auto simp: dollar_not_amount)
  have nod: "\<forall>j. i \<le> j \<and> j < p \<longrightarrow> \<not> dollarAmountAt b j"
  proof (intro allI impI)
    fix j assume j: "i \<le> j \<and> j < p"
    show "\<not> dollarAmountAt b j"
    proof (cases "j < q")
      case True
      with j least have "priceAt (drop j b) = None" by simp
      then show ?thesis using dollar_priceAt [of b j] by auto
    next
      case False
      with j have jq: "j - q < length pre" "q \<le> j" by (auto simp: p_def)
      then have "(h @ pre) ! j = pre ! (j - q)" using lh by (simp add: nth_append)
      moreover from j have "j < length (h @ pre)" unfolding lhp by simp
      ultimately have "b ! j = pre ! (j - q)" by (subst b) (simp only: nth_append if_True)
      moreover from jq have "pre ! (j - q) \<in> set pre" by simp
      ultimately show ?thesis using units by (auto simp: dollarAmountAt_def)
    qed
  qed
  have acc: "acceptedValue b pm = (if eligible b p then amountValue b p else None)"
  proof (cases "pre = []")
    case False
    have a: "acceptedValue b pm = None"
    proof (cases pl)
      case True
      with g show ?thesis by (simp add: acceptedValue_def)
    next
      case False
      with \<open>pre \<noteq> []\<close> have "ab \<noteq> []" by (simp add: pre_def)
      with ab obtain ws where "ab = js ''about'' @ ws" by (auto simp: aboutPart_def)
      with False w have wh: "whole pm = js ''about'' @ (ws @ 36 # amount pm)" by simp
      have "js ''about'' \<noteq> []" by (simp add: js_def)
      then have "indexOf (js ''about'') (whole pm) = Some 0"
        unfolding wh by (rule indexOf_head)
      then show ?thesis by (simp add: acceptedValue_def)
    qed
    have "plusPrefixed b p \<or> aboutAnnotation b p"
    proof (cases "ab = []")
      case True
      with False have plt: "pl" and pre: "pre = [43]" by (auto simp: pre_def split: if_splits)
      then have "p = Suc q" by (simp add: p_def)
      moreover have "b ! q = 43"
        by (subst b) (simp add: pre nth_append lh)
      ultimately show ?thesis by (simp add: plusPrefixed_def)
    next
      case False
      with ab obtain ws where ws: "ab = js ''about'' @ ws" "ws \<noteq> []" "\<forall>c \<in> set ws. isWs c"
        by (auto simp: aboutPart_def)
      then have "take p b = (h @ (if pl then [43] else [])) @ js ''about'' @ ws"
        unfolding tp pre_def by simp
      then have "aboutAnnotation b p" using ws(2,3) by (rule about_annotation)
      then show ?thesis ..
    qed
    then have "\<not> eligible b p" by (auto simp: eligible_def)
    with a show ?thesis by simp
  next
    case True
    then have npl: "\<not> pl" and abn: "ab = []" by (auto simp: pre_def split: if_splits)
    from True have pq: "p = q" by (simp add: p_def)
    from npl abn w have wh: "whole pm = 36 # amount pm" by simp
    have "97 \<notin> set (amount pm)"
    proof
      assume "97 \<in> set (amount pm)"
      then have "isAmountUnit 97" unfolding am by (rule set_takeWhileD [THEN conjunct2])
      then show False by (simp add: isAmountUnit_def isDigit_def)
    qed
    then have "hd (js ''about'') \<notin> set (whole pm)" "js ''about'' \<noteq> []"
      unfolding wh by (simp_all add: js_def)
    then have ix: "indexOf (js ''about'') (whole pm) = None"
      using indexOf_absent [of "js ''about''" "whole pm"] by simp
    from pl have "p \<le> length b" by simp
    then have "endsWithShipping (textBefore b p) \<longleftrightarrow> afterShipping b p"
      by (rule afterShipping_iff)
    then have ship: "endsWithShipping (textBefore b (index pm)) \<longleftrightarrow> afterShipping b p"
      unfolding pq q_def .
    have dp: "drop p b = 36 # rest" by (subst b) (simp add: lhp [symmetric])
    have tr: "takeWhile isAmountUnit rest \<noteq> []" using am ne by simp
    from iq pq have ip: "i \<le> p" by simp
    from least pq have least': "\<forall>j. i \<le> j \<and> j < p \<longrightarrow> priceAt (drop j b) = None" by simp
    have nplus: "\<not> plusPrefixed b p"
      using dp tr pl ip inv least' by (rule no_plus_before)
    have nabout: "\<not> aboutAnnotation b p"
      using dp tr pl ip inv least' by (rule no_about_before)
    have "acceptedValue b pm =
        (if afterShipping b p then None
         else case amountValue b p of None \<Rightarrow> None
              | Some v \<Rightarrow> if positiveNumber v then Some v else None)"
      unfolding acceptedValue_def amountValue_def at using g npl ix ship by simp
    moreover have "eligible b p \<longleftrightarrow>
        \<not> afterShipping b p \<and> (case amountValue b p of None \<Rightarrow> False | Some v \<Rightarrow> positiveNumber v)"
      unfolding eligible_def using da nplus nabout by simp
    ultimately show ?thesis by (simp split: option.splits)
  qed
  from iq have "i \<le> p" by (simp add: p_def)
  with da nod len acc show ?thesis by blast
qed

text \<open>The price loop returns the price as the corrected claim words it.\<close>

lemma eligible_dollar: "eligible b p \<Longrightarrow> dollarAmountAt b p"
  by (simp add: eligible_def)

lemma eligible_value: "eligible b p \<Longrightarrow> \<exists>v. amountValue b p = Some v"
  by (auto simp: eligible_def split: option.splits)

lemma priceLoop_from:
  "i \<le> length b \<Longrightarrow> i = 0 \<or> isAmountUnit (b ! (i - 1)) \<Longrightarrow>
   priceLoop b i =
     (case find (eligible b) [i..<length b] of None \<Rightarrow> None | Some p \<Rightarrow> amountValue b p)"
proof (induction b i rule: priceLoop.induct)
  case (1 block lastIndex)
  show ?case
  proof (cases "execFrom block lastIndex")
    case None
    have "\<forall>j. lastIndex \<le> j \<and> j < length block \<longrightarrow> \<not> eligible block j"
    proof (intro allI impI)
      fix j assume j: "lastIndex \<le> j \<and> j < length block"
      then have "lastIndex \<le> j" "j \<le> length block" by simp_all
      with None have "priceAt (drop j block) = None" by (rule execFrom_None)
      then have "\<not> dollarAmountAt block j" using dollar_priceAt [of block j] by auto
      then show "\<not> eligible block j" using eligible_dollar by blast
    qed
    then have "find (eligible block) [lastIndex..<length block] = None"
      by (simp add: find_None_iff)
    with None show ?thesis by (simp add: priceLoop.simps [of block lastIndex])
  next
    case (Some pm)
    from match_on_text [OF 1(2) 1(3) Some] obtain p where ip: "lastIndex \<le> p"
      and da: "dollarAmountAt block p"
      and nod: "\<forall>j. lastIndex \<le> j \<and> j < p \<longrightarrow> \<not> dollarAmountAt block j"
      and len: "index pm + length (whole pm) = Suc p + length (amountText block p)"
      and acc: "acceptedValue block pm = (if eligible block p then amountValue block p else None)"
      by blast
    define i' where "i' = Suc p + length (amountText block p)"
    from amount_run [OF da] have il: "i' \<le> length block"
      and run: "\<forall>j. Suc p \<le> j \<and> j < i' \<longrightarrow> isAmountUnit (block ! j)"
      unfolding i'_def by simp_all
    from da have pl: "p < length block" and ne: "amountText block p \<noteq> []"
      by (simp_all add: dollarAmountAt_def)
    from ne have "Suc p \<le> i' - 1 \<and> i' - 1 < i'" by (cases "amountText block p") (simp_all add: i'_def)
    with run have inv': "i' = 0 \<or> isAmountUnit (block ! (i' - 1))" by blast
    have n1: "\<forall>j. lastIndex \<le> j \<and> j < p \<longrightarrow> \<not> eligible block j"
      using nod eligible_dollar by blast
    have n2: "\<forall>j. Suc p \<le> j \<and> j < i' \<longrightarrow> \<not> eligible block j"
    proof (intro allI impI)
      fix j assume "Suc p \<le> j \<and> j < i'"
      with run have "isAmountUnit (block ! j)" by blast
      then have "block ! j \<noteq> 36" using dollar_not_amount(1) by auto
      then have "\<not> dollarAmountAt block j" by (simp add: dollarAmountAt_def)
      then show "\<not> eligible block j" using eligible_dollar by blast
    qed
    have "find (eligible block) [lastIndex..<length block] =
        find (eligible block) [p..<length block]"
      using ip pl n1 by (intro find_upt_skip) simp_all
    also have "\<dots> = (if eligible block p then Some p
                     else find (eligible block) [Suc p..<length block])"
      using pl by (rule find_upt_first)
    also have "find (eligible block) [Suc p..<length block] =
        find (eligible block) [i'..<length block]"
      using il n2 by (intro find_upt_skip) (simp_all add: i'_def)
    finally have f: "find (eligible block) [lastIndex..<length block] =
        (if eligible block p then Some p else find (eligible block) [i'..<length block])" .
    show ?thesis
    proof (cases "eligible block p")
      case True
      then obtain v where v: "amountValue block p = Some v" using eligible_value by blast
      with True acc have "acceptedValue block pm = Some v" by simp
      with Some have "priceLoop block lastIndex = Some v"
        by (simp add: priceLoop.simps [of block lastIndex])
      with True f v show ?thesis by simp
    next
      case False
      with acc have a: "acceptedValue block pm = None" by simp
      with Some have "priceLoop block lastIndex = priceLoop block (index pm + length (whole pm))"
        by (simp add: priceLoop.simps [of block lastIndex])
      also have "index pm + length (whole pm) = i'" using len by (simp add: i'_def)
      finally have "priceLoop block lastIndex = priceLoop block i'" .
      moreover have "priceLoop block i' =
          (case find (eligible block) [i'..<length block] of
             None \<Rightarrow> None | Some p \<Rightarrow> amountValue block p)"
        using 1(1) [OF Some a] il inv' len unfolding i'_def by simp
      ultimately show ?thesis using False f by simp
    qed
  qed
qed

lemma priceLoop_claimed: "priceLoop block 0 = claimedPrice block"
  unfolding claimedPrice_def by (rule priceLoop_from) simp_all

text \<open>The price of a block is the value of its first eligible amount.\<close>

lemma find_upt_Some:
  "find P [0..<n] = Some p \<longleftrightarrow> p < n \<and> P p \<and> (\<forall>j < p. \<not> P j)"
proof -
  have "find P [0..<n] = Some p \<longleftrightarrow>
      (\<exists>i < n. P ([0..<n] ! i) \<and> p = [0..<n] ! i \<and> (\<forall>j < i. \<not> P ([0..<n] ! j)))"
    by (simp add: find_Some_iff)
  also have "\<dots> \<longleftrightarrow> (\<exists>i < n. P i \<and> p = i \<and> (\<forall>j < i. \<not> P j))"
    by auto
  also have "\<dots> \<longleftrightarrow> p < n \<and> P p \<and> (\<forall>j < p. \<not> P j)"
    by auto
  finally show ?thesis .
qed

lemma claimedPrice_first:
  "claimedPrice block = Some v \<longleftrightarrow>
     (\<exists>p. eligible block p \<and> (\<forall>j < p. \<not> eligible block j) \<and> amountValue block p = Some v)"
proof
  assume a: "claimedPrice block = Some v"
  then obtain p where f: "find (eligible block) [0..<length block] = Some p"
    by (auto simp: claimedPrice_def split: option.splits)
  with a have "amountValue block p = Some v" by (simp add: claimedPrice_def)
  with f show "\<exists>p. eligible block p \<and> (\<forall>j < p. \<not> eligible block j) \<and>
      amountValue block p = Some v"
    unfolding find_upt_Some by blast
next
  assume "\<exists>p. eligible block p \<and> (\<forall>j < p. \<not> eligible block j) \<and>
      amountValue block p = Some v"
  then obtain p where p: "eligible block p" "\<forall>j < p. \<not> eligible block j"
    and v: "amountValue block p = Some v" by blast
  from p(1) have "p < length block" by (simp add: eligible_def dollarAmountAt_def)
  with p have "find (eligible block) [0..<length block] = Some p"
    unfolding find_upt_Some by simp
  with v show "claimedPrice block = Some v" by (simp add: claimedPrice_def)
qed

text \<open>The double nearest to \<open>2e-324\<close> is 0, the one nearest to \<open>3e-324\<close> is the smallest
  positive double.\<close>

lemma positiveNumber_threshold:
  "\<not> positiveNumber 0" "\<not> positiveNumber (2 / 10 ^ 324)" "positiveNumber (3 / 10 ^ 324)"
  by (simp_all add: positiveNumber_def)

subsection \<open>Evaluation on concrete pages\<close>

lemmas regex_eval = foldCase_def one_def many1_def capture1_def isDash_def isDigitComma_def
  countAt_def countMatch_def digitsValue_def parseIntOr0_def noResultsAt_def noResults_def
  isWsHyphen_def markerAt_def isAmountUnit_def grades_def gradeAt_def tagAt_def
  gradeAfterTags.simps condAt_def condMatch_def shipsFromAt_def hasShipsFrom_def
  isCountryUnit_def tagsThenCountry.simps countryAfterColon_def shipCountryAt_def shipMatch_def
  isUnitedStates_def priceAt_def execFrom.simps parseFloat_def endsWithShipping_def
  textBefore_def positiveNumber_def acceptedValue_def priceLoop.simps GRADE_RANK_def
  isVGPlusOrBetter_def
lemmas page_eval = validBlock_def passesFilters_def processBlock_def hasPagination_def
  headerTotal_def parseFilteredPage_def blocksOf_def listingBlocks_def matchedBlocks_def Let_def

lemmas parser_eval = string_eval regex_eval page_eval

lemma page_zero_first:
  "parseFilteredPage (js ''Media Condition: Mint (M) $0.00 $5.00 Ships From: US'') False False =
     \<lparr>total = 1, listingsOnPage = 1, matched = 1, prices = [5], lowest = Some 5\<rparr>"
  "\<not> hasPagination (js ''Media Condition: Mint (M) $0.00 $5.00 Ships From: US'')"
  "listingBlocks (js ''Media Condition: Mint (M) $0.00 $5.00 Ships From: US'') =
     [js '' Mint (M) $0.00 $5.00 Ships From: US'']"
  by (simp_all add: parser_eval)

lemmas claim_eval = amountText_def dollarAmountAt_def plusPrefixed_def aboutAnnotation_def
  afterShipping_def afterShippingWord_def nextIsWord_def isWordCh_def isLower_def
  amountValue_def eligible_def claimedPrice_def claimedAmount_def upt_conv_Cons

lemma block_zero_first:
  "claimedAmount (js '' Mint (M) $0.00 $5.00 Ships From: US'') = Some 10"
  "amountText (js '' Mint (M) $0.00 $5.00 Ships From: US'') 10 = js ''0.00''"
  "amountValue (js '' Mint (M) $0.00 $5.00 Ships From: US'') 10 = Some 0"
  by (simp_all add: claim_eval parser_eval)

lemma page_good_grade:
  "parseFilteredPage (js ''Media Condition: Good (G) $5 Ships From: X'') False True =
     \<lparr>total = 1, listingsOnPage = 1, matched = 0, prices = [], lowest = None\<rparr>"
  "listingBlocks (js ''Media Condition: Good (G) $5 Ships From: X'') =
     [js '' Good (G) $5 Ships From: X'']"
  by (simp_all add: parser_eval)

lemma block_good_grade:
  "claimedAmount (js '' Good (G) $5 Ships From: X'') = Some 10"
  "amountValue (js '' Good (G) $5 Ships From: X'') 10 = Some 5"
  by (simp_all add: claim_eval parser_eval)

lemma page_exclusions:
  "parseFilteredPage
     (js ''Media Condition: Mint (M) +$6.00 shipping $56.00 about $3.00 $0.00 $50.00 Ships From: US'')
     False False =
     \<lparr>total = 1, listingsOnPage = 1, matched = 1, prices = [50], lowest = Some 50\<rparr>"
  "matchedBlocks False False
     (js ''Media Condition: Mint (M) +$6.00 shipping $56.00 about $3.00 $0.00 $50.00 Ships From: US'') =
     [js '' Mint (M) +$6.00 shipping $56.00 about $3.00 $0.00 $50.00 Ships From: US'']"
  by (simp_all add: parser_eval)

lemma block_exclusions:
  "claimedPrice
     (js '' Mint (M) +$6.00 shipping $56.00 about $3.00 $0.00 $50.00 Ships From: US'') = Some 50"
  by (simp add: claim_eval parser_eval)

lemma page_far_shipping:
  "parseFilteredPage
     (js ''Media Condition: Mint (M) shipping             $56.00 $50.00 Ships From: US'')
     False False =
     \<lparr>total = 1, listingsOnPage = 1, matched = 1, prices = [56], lowest = Some 56\<rparr>"
  "listingBlocks (js ''Media Condition: Mint (M) shipping             $56.00 $50.00 Ships From: US'') =
     [js '' Mint (M) shipping             $56.00 $50.00 Ships From: US'']"
  by (simp_all add: parser_eval)

lemma block_far_shipping:
  "claimedAmount (js '' Mint (M) shipping             $56.00 $50.00 Ships From: US'') = Some 38"
  "amountValue (js '' Mint (M) shipping             $56.00 $50.00 Ships From: US'') 38 = Some 50"
  by (simp_all add: claim_eval parser_eval)

lemma page_reshipping:
  "parseFilteredPage
     (js ''Media Condition: Mint (M) reshipping $56.00 $50.00 Ships From: US'') False False =
     \<lparr>total = 1, listingsOnPage = 1, matched = 1, prices = [50], lowest = Some 50\<rparr>"
  "listingBlocks (js ''Media Condition: Mint (M) reshipping $56.00 $50.00 Ships From: US'') =
     [js '' Mint (M) reshipping $56.00 $50.00 Ships From: US'']"
  by (simp_all add: parser_eval)

lemma block_reshipping:
  "claimedAmount (js '' Mint (M) reshipping $56.00 $50.00 Ships From: US'') = Some 21"
  "amountValue (js '' Mint (M) reshipping $56.00 $50.00 Ships From: US'') 21 = Some 56"
  by (simp_all add: claim_eval parser_eval)

lemma page_phantoms:
  "parseFilteredPage
     (js ''Media Condition: <a>Very Good Plus (VG+)</a> 5 Media Condition: Mint (M) $3.00'')
     False False =
     \<lparr>total = 2, listingsOnPage = 0, matched = 0, prices = [], lowest = None\<rparr>"
  "\<not> hasPagination
     (js ''Media Condition: <a>Very Good Plus (VG+)</a> 5 Media Condition: Mint (M) $3.00'')"
  "\<not> noResults
     (js ''Media Condition: <a>Very Good Plus (VG+)</a> 5 Media Condition: Mint (M) $3.00'')"
  "listingBlocks
     (js ''Media Condition: <a>Very Good Plus (VG+)</a> 5 Media Condition: Mint (M) $3.00'') = []"
  by (simp_all add: parser_eval)

lemma page_no_results_paginated:
  "parseFilteredPage (js ''No items for sale 1 - 2 of 3'') False False =
     \<lparr>total = 3, listingsOnPage = 0, matched = 0, prices = [], lowest = None\<rparr>"
  "noResults (js ''No items for sale 1 - 2 of 3'')"
  "listingBlocks (js ''No items for sale 1 - 2 of 3'') = []"
  by (simp_all add: parser_eval)

lemma page_zero_total:
  "parseFilteredPage (js ''1 - 1 of 0 Media Condition: Mint (M) $5.00 Ships From: US'') False False =
     \<lparr>total = 0, listingsOnPage = 1, matched = 1, prices = [5], lowest = Some 5\<rparr>"
  "hasPagination (js ''1 - 1 of 0 Media Condition: Mint (M) $5.00 Ships From: US'')"
  by (simp_all add: parser_eval)

lemma page_marker_only:
  "parseFilteredPage (js ''Media Condition: x'') False False =
     \<lparr>total = 1, listingsOnPage = 0, matched = 0, prices = [], lowest = None\<rparr>"
  "\<not> hasPagination (js ''Media Condition: x'')"
  "listingBlocks (js ''Media Condition: x'') = []"
  "\<not> noResults (js ''Media Condition: x'')"
  by (simp_all add: parser_eval)

lemma page_capped:
  "parseFilteredPage
     (js ''1 - 1 of 1 Media Condition: Mint (M) $5 Ships From: A Media Condition: Mint (M) $6 Ships From: B'')
     False False =
     \<lparr>total = 1, listingsOnPage = 1, matched = 1, prices = [5, 6], lowest = Some 5\<rparr>"
  "hasPagination
     (js ''1 - 1 of 1 Media Condition: Mint (M) $5 Ships From: A Media Condition: Mint (M) $6 Ships From: B'')"
  by (simp_all add: parser_eval)

lemma page_stray_amount:
  "parseFilteredPage (js ''No items for sale $1.01'') False False =
     \<lparr>total = 0, listingsOnPage = 0, matched = 0, prices = [], lowest = None\<rparr>"
  "\<not> hasPagination (js ''No items for sale $1.01'')"
  "noResults (js ''No items for sale $1.01'')"
  "listingBlocks (js ''No items for sale $1.01'') = []"
  "countMarkers (js ''No items for sale $1.01'') = 0"
  by (simp_all add: parser_eval)

lemma page_euro_only:
  "parseFilteredPage
     (js ''1 - 25 of 5 Media Condition: Very Good Plus (VG+) Sleeve Condition: VG '' @
      8364 # js ''25.00 about $28.12 Ships From: Germany'') False False =
     \<lparr>total = 5, listingsOnPage = 1, matched = 1, prices = [], lowest = None\<rparr>"
  by (simp add: parser_eval)

lemma page_canadian:
  "parseFilteredPage
     (js ''1 - 25 of 5 Media Condition: Very Good Plus (VG+) Sleeve Condition: VG CA$30.00 Ships From: Canada'')
     False False =
     \<lparr>total = 5, listingsOnPage = 1, matched = 1, prices = [30], lowest = Some 30\<rparr>"
  by (simp add: parser_eval)

section \<open>Price aggregation\<close>

text \<open>
  The statistics the background script hands to the popup. \<open>priceStats\<close> holds the three
  fields every such object has; \<open>scrapedTotal\<close> is \<open>None\<close> where the source leaves the field
  out or where a sum over it is \<open>NaN\<close>.
\<close>

record priceStats =
  numForSale :: nat
  lowestPrice :: "real option"
  medianPrice :: "real option"

record scrapeStats = priceStats +
  scrapedTotal :: "nat option"

record filteredStats = scrapeStats +
  matchStats :: "scrapeStats list"

text \<open>
  What the network answers to one \<open>fetch\<close>: a page (\<open>res.ok\<close>, with its text), a response
  that is not \<open>ok\<close>, or a rejected promise. The network itself is a parameter of the
  functions below: a function from the listings address and the page number to the
  answer.
\<close>

datatype response = Page jsstr | NotOk | Failed

definition MAX_SCRAPE_PAGES :: nat where
  "MAX_SCRAPE_PAGES = 2"

record scrapeAcc =
  allPrices :: "real list"
  allMatched :: nat
  totalListings :: nat
  totalOnPages :: nat
  lowestSoFar :: "real option"

text \<open>
  The \<open>for\<close> loop of \<open>scrapeFilteredListings\<close> over the page numbers: \<open>Inl\<close> is a
  \<open>return\<close> from inside the loop (the empty first page, or the \<open>catch\<close>), \<open>Inr\<close> the
  variables when the loop ends or breaks.
\<close>

fun scrapePages ::
  "(nat \<Rightarrow> response) \<Rightarrow> bool \<Rightarrow> bool \<Rightarrow> nat list \<Rightarrow> scrapeAcc \<Rightarrow> scrapeStats + scrapeAcc" where
  "scrapePages fetch usOnly vgPlus [] st = Inr st"
| "scrapePages fetch usOnly vgPlus (page # rest) st =
     (case fetch page of
        Failed \<Rightarrow>
          Inl \<lparr>numForSale = 0, lowestPrice = None, medianPrice = None, scrapedTotal = Some 0\<rparr>
      | NotOk \<Rightarrow> Inr st
      | Page html \<Rightarrow>
          (let pg = parseFilteredPage html usOnly vgPlus;
               st1 = (if page = 1 then st\<lparr>totalListings := total pg\<rparr> else st)
           in if page = 1 \<and> totalListings st1 = 0
              then Inl \<lparr>numForSale = 0, lowestPrice = None, medianPrice = None,
                        scrapedTotal = None\<rparr>
              else
                (let st2 = st1\<lparr>totalOnPages := totalOnPages st1 + listingsOnPage pg,
                               allMatched := allMatched st1 + matched pg,
                               allPrices := allPrices st1 @ prices pg,
                               lowestSoFar :=
                                 (case lowest pg of
                                    None \<Rightarrow> lowestSoFar st1
                                  | Some l \<Rightarrow>
                                      (case lowestSoFar st1 of
                                         None \<Rightarrow> Some l
                                       | Some m \<Rightarrow> if l < m then Some l else Some m))\<rparr>
                 in if listingsOnPage pg < 25 \<or> totalListings st2 \<le> totalOnPages st2
                    then Inr st2
                    else scrapePages fetch usOnly vgPlus rest st2)))"

text \<open>
  \<open>scrapeFilteredListings\<close>. The median is taken over the sorted prices of all listings
  of the fetched pages. \<open>Math.round\<close> rounds half up; the model rounds the exact
  product, where the source rounds the product of two doubles, which can fall on the other
  side of a half.
\<close>

definition scrapeFilteredListings :: "(nat \<Rightarrow> response) \<Rightarrow> bool \<Rightarrow> bool \<Rightarrow> scrapeStats" where
  "scrapeFilteredListings fetch usOnly vgPlus =
     (case scrapePages fetch usOnly vgPlus [1..<Suc MAX_SCRAPE_PAGES]
             \<lparr>allPrices = [], allMatched = 0, totalListings = 0, totalOnPages = 0,
              lowestSoFar = None\<rparr> of
        Inl r \<Rightarrow> r
      | Inr st \<Rightarrow>
          \<lparr>numForSale =
             (if totalOnPages st < totalListings st \<and> 0 < totalOnPages st
              then nat (round (real (allMatched st) / real (totalOnPages st)
                               * real (totalListings st)))
              else allMatched st),
           lowestPrice = lowestSoFar st,
           medianPrice = computeMedian (sort (allPrices st)),
           scrapedTotal = Some (totalListings st)\<rparr>)"

text \<open>\<open>url + sep + "sort=price%2Casc"\<close>, with \<open>&\<close> when the address has a query already.\<close>

definition sortedUrl :: "jsstr \<Rightarrow> jsstr" where
  "sortedUrl url =
     url @ (if indexOf (js ''?'') url \<noteq> None then js ''&'' else js ''?'') @ js ''sort=price%2Casc''"

record filterAcc =
  totalForSale :: nat
  scrapedSum :: "nat option"
  allLowest :: "real option"
  allMedians :: "real list"
  statsSoFar :: "scrapeStats list"

text \<open>
  The loop of \<open>handleFilteredStats\<close> over the matches; a match is given by its
  \<open>sellUrl\<close>, \<open>None\<close> when it has none. \<open>allLowest\<close> is \<open>None\<close> for \<open>Infinity\<close>. The loop
  collects the median of each match.
\<close>

fun filteredLoop ::
  "(jsstr \<Rightarrow> nat \<Rightarrow> response) \<Rightarrow> bool \<Rightarrow> bool \<Rightarrow> jsstr option list \<Rightarrow> filterAcc \<Rightarrow> filterAcc"
  where
  "filteredLoop net usOnly vgPlus [] acc = acc"
| "filteredLoop net usOnly vgPlus (m # rest) acc =
     (if orEmpty m = [] then filteredLoop net usOnly vgPlus rest acc
      else
        (let stats = scrapeFilteredListings (net (sortedUrl (orEmpty m))) usOnly vgPlus in
         filteredLoop net usOnly vgPlus rest
           \<lparr>totalForSale = totalForSale acc + numForSale stats,
            scrapedSum =
              (case (scrapedSum acc, scrapedTotal stats) of
                 (Some a, Some b) \<Rightarrow> Some (a + b)
               | _ \<Rightarrow> None),
            allLowest =
              (case lowestPrice stats of
                 None \<Rightarrow> allLowest acc
               | Some l \<Rightarrow>
                   (case allLowest acc of
                      None \<Rightarrow> Some l
                    | Some a \<Rightarrow> if l < a then Some l else Some a)),
            allMedians =
              (case medianPrice stats of
                 None \<Rightarrow> allMedians acc
               | Some md \<Rightarrow> allMedians acc @ [md]),
            statsSoFar = statsSoFar acc @ [stats]\<rparr>))"

definition handleFilteredStats ::
  "(jsstr \<Rightarrow> nat \<Rightarrow> response) \<Rightarrow> jsstr option list \<Rightarrow> bool \<Rightarrow> bool \<Rightarrow> filteredStats" where
  "handleFilteredStats net matches usOnly vgPlus =
     (let acc = filteredLoop net usOnly vgPlus matches
                  \<lparr>totalForSale = 0, scrapedSum = Some 0, allLowest = None, allMedians = [],
                   statsSoFar = []\<rparr>
      in \<lparr>numForSale = totalForSale acc, lowestPrice = allLowest acc,
          medianPrice = computeMedian (sort (allMedians acc)),
          scrapedTotal = scrapedSum acc, matchStats = statsSoFar acc\<rparr>)"

text \<open>
  \<open>gatherPricing\<close>, as far as prices go: the answer to the fetch of the match's listings
  page, \<open>None\<close> when the match has neither a release nor a master id. The source sorts the
  array of scraped prices in place. \<open>numForSale\<close> is the source's \<open>totalForSale\<close>.
\<close>

record pricing = priceStats +
  scrapedPrices :: "real list"

definition gatherPricing :: "response option \<Rightarrow> pricing" where
  "gatherPricing answer =
     (case answer of
        Some (Page html) \<Rightarrow>
          (let pg = parseFilteredPage html False False in
           \<lparr>numForSale = total pg, lowestPrice = lowest pg,
            medianPrice = computeMedian (sort (prices pg)),
            scrapedPrices = sort (prices pg)\<rparr>)
      | _ \<Rightarrow> \<lparr>numForSale = 0, lowestPrice = None, medianPrice = None, scrapedPrices = []\<rparr>)"

text \<open>The prices one match adds to \<open>allPrices\<close> in \<open>buildResult\<close>.\<close>

definition pooledPrices :: "pricing \<Rightarrow> real list" where
  "pooledPrices p =
     (if scrapedPrices p \<noteq> [] then scrapedPrices p
      else (case lowestPrice p of None \<Rightarrow> [] | Some l \<Rightarrow> [l]) @
           (case medianPrice p of None \<Rightarrow> [] | Some md \<Rightarrow> [md]))"

record buildAcc =
  buildTotal :: nat
  globalLowest :: "real option"
  buildPrices :: "real list"

fun buildLoop :: "response option list \<Rightarrow> buildAcc \<Rightarrow> buildAcc" where
  "buildLoop [] acc = acc"
| "buildLoop (m # rest) acc =
     (let p = gatherPricing m in
      buildLoop rest
        \<lparr>buildTotal = buildTotal acc + numForSale p,
         globalLowest =
           (case lowestPrice p of
              None \<Rightarrow> globalLowest acc
            | Some l \<Rightarrow>
                (case globalLowest acc of
                   None \<Rightarrow> Some l
                 | Some g \<Rightarrow> if l < g then Some l else Some g)),
         buildPrices = buildPrices acc @ pooledPrices p\<rparr>)"

text \<open>\<open>buildResult\<close>, as far as the aggregate prices go: the count, the lowest price and
  the median over \<open>allPrices\<close>. The source goes on to read \<open>primary.masterId\<close>, which
  fails when there is no match at all; its caller \<open>handleFullSearch\<close> throws before on
  an empty list, and the model stands for the call with at least one match.\<close>

definition buildResult :: "response option list \<Rightarrow> priceStats" where
  "buildResult matches =
     (let acc = buildLoop matches \<lparr>buildTotal = 0, globalLowest = None, buildPrices = []\<rparr>
      in \<lparr>numForSale = buildTotal acc, lowestPrice = globalLowest acc,
          medianPrice = computeMedian (sort (buildPrices acc))\<rparr>)"

text \<open>The per-listing prices behind one answer.\<close>

definition listingPrices :: "response \<Rightarrow> bool \<Rightarrow> bool \<Rightarrow> real list" where
  "listingPrices answer usOnly vgPlus =
     (case answer of Page html \<Rightarrow> prices (parseFilteredPage html usOnly vgPlus) | _ \<Rightarrow> [])"

subsection \<open>Facts about the aggregates\<close>

lemma computeMedian_Nil [simp]: "computeMedian [] = None"
  by (simp add: computeMedian_def)

lemma gather_pooled:
  "pooledPrices (gatherPricing answer) =
     sort (case answer of None \<Rightarrow> [] | Some r \<Rightarrow> listingPrices r False False)"
proof (cases answer)
  case None
  then show ?thesis by (simp add: gatherPricing_def pooledPrices_def)
next
  case (Some r)
  show ?thesis
  proof (cases r)
    case (Page html)
    let ?pg = "parseFilteredPage html False False"
    show ?thesis
    proof (cases "prices ?pg = []")
      case True
      then have "lowest ?pg = None" by (simp add: parse_lowest lowestOf_def)
      with True Some Page show ?thesis
        by (simp add: gatherPricing_def pooledPrices_def listingPrices_def Let_def)
    next
      case False
      then have "sort (prices ?pg) \<noteq> []" by (metis length_sort length_0_conv)
      with Some Page show ?thesis
        by (simp add: gatherPricing_def pooledPrices_def listingPrices_def Let_def)
    qed
  next
    case NotOk
    with Some show ?thesis
      by (simp add: gatherPricing_def pooledPrices_def listingPrices_def)
  next
    case Failed
    with Some show ?thesis
      by (simp add: gatherPricing_def pooledPrices_def listingPrices_def)
  qed
qed

lemma buildLoop_prices:
  "buildPrices (buildLoop ms acc) =
     buildPrices acc @ concat (map (\<lambda>m. pooledPrices (gatherPricing m)) ms)"
  by (induction ms arbitrary: acc) (auto simp: Let_def)

lemma sort_mset_eq: "mset xs = mset ys \<Longrightarrow> sort xs = sort (ys :: real list)"
  by (metis properties_for_sort sorted_sort mset_sort)

lemma mset_concat_sorted: "mset (concat (map (\<lambda>x. sort (f x)) xs)) = mset (concat (map f xs))"
  by (induction xs) auto

text \<open>\<open>buildResult\<close> does take the median over the pooled prices of all listings.\<close>

lemma buildResult_pooled_median:
  "medianPrice (buildResult ms) =
     computeMedian
       (sort (concat (map (\<lambda>m. case m of None \<Rightarrow> [] | Some r \<Rightarrow> listingPrices r False False) ms)))"
proof -
  have "buildPrices (buildLoop ms \<lparr>buildTotal = 0, globalLowest = None, buildPrices = []\<rparr>) =
      concat (map (\<lambda>m. sort (case m of None \<Rightarrow> [] | Some r \<Rightarrow> listingPrices r False False)) ms)"
    by (simp add: buildLoop_prices gather_pooled)
  then have "mset (buildPrices
        (buildLoop ms \<lparr>buildTotal = 0, globalLowest = None, buildPrices = []\<rparr>)) =
      mset (concat (map (\<lambda>m. case m of None \<Rightarrow> [] | Some r \<Rightarrow> listingPrices r False False) ms))"
    by (simp only: mset_concat_sorted)
  then have "sort (buildPrices
        (buildLoop ms \<lparr>buildTotal = 0, globalLowest = None, buildPrices = []\<rparr>)) =
      sort (concat (map (\<lambda>m. case m of None \<Rightarrow> [] | Some r \<Rightarrow> listingPrices r False False) ms))"
    by (rule sort_mset_eq)
  then show ?thesis by (simp add: buildResult_def Let_def)
qed

lemma page_two_listings:
  "parseFilteredPage
     (js ''Media Condition: Mint (M) $1 Ships From: A Media Condition: Mint (M) $2 Ships From: B'')
     False False =
     \<lparr>total = 2, listingsOnPage = 2, matched = 2, prices = [1, 2], lowest = Some 1\<rparr>"
  by (simp add: parser_eval)

lemma page_one_listing:
  "parseFilteredPage (js ''Media Condition: Mint (M) $3 Ships From: C'') False False =
     \<lparr>total = 1, listingsOnPage = 1, matched = 1, prices = [3], lowest = Some 3\<rparr>"
  by (simp add: parser_eval)

text \<open>A listings address with one page: page 1 is answered, any further page is not.\<close>

definition onePage :: "jsstr \<Rightarrow> nat \<Rightarrow> response" where
  "onePage html page = (if page = 1 then Page html else NotOk)"

lemma pages_list: "[1..<Suc MAX_SCRAPE_PAGES] = [1, 2]"
  by (simp add: MAX_SCRAPE_PAGES_def upt_conv_Cons)

lemma scrapeFilteredListings_pages:
  "scrapeFilteredListings fetch usOnly vgPlus =
     (case scrapePages fetch usOnly vgPlus [1, 2]
             \<lparr>allPrices = [], allMatched = 0, totalListings = 0, totalOnPages = 0,
              lowestSoFar = None\<rparr> of
        Inl r \<Rightarrow> r
      | Inr st \<Rightarrow>
          \<lparr>numForSale =
             (if totalOnPages st < totalListings st \<and> 0 < totalOnPages st
              then nat (round (real (allMatched st) / real (totalOnPages st)
                               * real (totalListings st)))
              else allMatched st),
           lowestPrice = lowestSoFar st,
           medianPrice = computeMedian (sort (allPrices st)),
           scrapedTotal = Some (totalListings st)\<rparr>)"
  unfolding scrapeFilteredListings_def pages_list ..

lemmas scrape_eval = scrapeFilteredListings_pages onePage_def computeMedian_def Let_def

lemma scrape_two_listings:
  "scrapeFilteredListings
     (onePage (js ''Media Condition: Mint (M) $1 Ships From: A Media Condition: Mint (M) $2 Ships From: B''))
     False False =
     \<lparr>numForSale = 2, lowestPrice = Some 1, medianPrice = Some (3 / 2), scrapedTotal = Some 2\<rparr>"
  by (simp add: scrape_eval page_two_listings)

lemma scrape_one_listing:
  "scrapeFilteredListings (onePage (js ''Media Condition: Mint (M) $3 Ships From: C'')) False False =
     \<lparr>numForSale = 1, lowestPrice = Some 3, medianPrice = Some 3, scrapedTotal = Some 1\<rparr>"
  by (simp add: scrape_eval page_one_listing)

text \<open>Two matches, told apart by the first letter of their address; each has one page.\<close>

definition twoMatches :: "jsstr \<Rightarrow> nat \<Rightarrow> response" where
  "twoMatches url =
     onePage (if hd url = 97
              then js ''Media Condition: Mint (M) $1 Ships From: A Media Condition: Mint (M) $2 Ships From: B''
              else js ''Media Condition: Mint (M) $3 Ships From: C'')"

lemma twoMatches_a:
  "twoMatches (sortedUrl (js ''a'')) =
     onePage (js ''Media Condition: Mint (M) $1 Ships From: A Media Condition: Mint (M) $2 Ships From: B'')"
  by (simp add: twoMatches_def sortedUrl_def js_def)

lemma twoMatches_b:
  "twoMatches (sortedUrl (js ''b'')) =
     onePage (js ''Media Condition: Mint (M) $3 Ships From: C'')"
  by (simp add: twoMatches_def sortedUrl_def js_def)

lemma js_nonempty: "orEmpty (Some (js ''a'')) = js ''a''" "js ''a'' \<noteq> []"
  "orEmpty (Some (js ''b'')) = js ''b''" "js ''b'' \<noteq> []"
  by (simp_all add: orEmpty_def js_def)

section \<open>The popup's filtered display\<close>

text \<open>
  \<open>showFilteredData\<close> writes markup; the model keeps the numbers it writes. \<open>vg\<close> is the
  state of the VG+ toggle, \<open>fData\<close> the answer of \<open>handleFilteredStats\<close>, \<open>g\<close> the cached
  aggregate \<open>cachedData.global\<close>, and \<open>matches\<close> its list of matches with their own cached
  numbers. A price that is shown as a dash is \<open>None\<close>.
\<close>

text \<open>\<open>Math.min(filtered, cached || Infinity)\<close>.\<close>

definition cappedCount :: "nat \<Rightarrow> nat \<Rightarrow> nat" where
  "cappedCount filtered cached = (if cached = 0 then filtered else min filtered cached)"

text \<open>\<open>scraped != null ? scraped : cached\<close>.\<close>

definition orElse :: "real option \<Rightarrow> real option \<Rightarrow> real option" where
  "orElse scraped cached = (case scraped of Some v \<Rightarrow> Some v | None \<Rightarrow> cached)"

text \<open>The three numbers handed to \<open>renderStats\<close>.\<close>

definition displayedStats ::
  "bool \<Rightarrow> 'a filteredStats_scheme \<Rightarrow> 'b priceStats_scheme \<Rightarrow> priceStats" where
  "displayedStats vg fData g =
     (let fLowest = lowestPrice fData;
          fMedian = medianPrice fData;
          cappedTotal = cappedCount (numForSale fData) (numForSale g);
          useScrapedPrices = (vg \<or> cappedTotal < numForSale g);
          displayLowest =
            (if cappedTotal > 0
             then (if useScrapedPrices then orElse fLowest (lowestPrice g) else lowestPrice g)
             else None);
          displayMedian =
            (if cappedTotal > 0
             then (if useScrapedPrices then orElse fMedian (medianPrice g) else medianPrice g)
             else None)
      in \<lparr>numForSale = cappedTotal, lowestPrice = displayLowest, medianPrice = displayMedian\<rparr>)"

text \<open>
  One row of the match list: the count and the price written for match \<open>m\<close>, whose
  filtered numbers are \<open>fData.matchStats[i]\<close>, or zero and \<open>null\<close> when the entry is missing.
\<close>

definition displayedMatch ::
  "bool \<Rightarrow> scrapeStats option \<Rightarrow> 'b priceStats_scheme \<Rightarrow> nat \<times> real option" where
  "displayedMatch vg entry m =
     (let msRaw = (case entry of
                     Some e \<Rightarrow> e
                   | None \<Rightarrow> \<lparr>numForSale = 0, lowestPrice = None, medianPrice = None,
                               scrapedTotal = None\<rparr>);
          msCount = cappedCount (numForSale msRaw) (numForSale m);
          useMatchScraped = (vg \<or> msCount < numForSale m);
          msPrice = (if useMatchScraped then orElse (lowestPrice msRaw) (lowestPrice m)
                     else lowestPrice m)
      in (msCount, if msCount > 0 then msPrice else None))"

definition entryAt :: "'a list \<Rightarrow> nat \<Rightarrow> 'a option" where
  "entryAt xs i = (if i < length xs then Some (xs ! i) else None)"

record rendered =
  stats :: priceStats
  rows :: "(nat \<times> real option) list"

definition showFilteredData ::
  "bool \<Rightarrow> filteredStats \<Rightarrow> priceStats \<Rightarrow> priceStats list \<Rightarrow> rendered" where
  "showFilteredData vg fData g matches =
     \<lparr>stats = displayedStats vg fData g,
      rows = (if length matches > 1
              then map (\<lambda>i. displayedMatch vg (entryAt (matchStats fData) i) (matches ! i))
                     [0..<length matches]
              else [])\<rparr>"

lemma cappedCount_zero: "cappedCount f c = 0 \<longleftrightarrow> f = 0"
  by (auto simp: cappedCount_def)

lemma cappedCount_0 [simp]: "cappedCount 0 c = 0"
  by (simp add: cappedCount_def)

lemma page_free_listing:
  "parseFilteredPage (js ''Media Condition: Mint (M) $0 Ships From: US'') False True =
     \<lparr>total = 1, listingsOnPage = 1, matched = 1, prices = [], lowest = None\<rparr>"
  by (simp add: parser_eval)

lemma scrape_free_listing:
  "scrapeFilteredListings (onePage (js ''Media Condition: Mint (M) $0 Ships From: US'')) False True =
     \<lparr>numForSale = 1, lowestPrice = None, medianPrice = None, scrapedTotal = Some 1\<rparr>"
  by (simp add: scrape_eval page_free_listing)

lemma filtered_free_listing:
  "handleFilteredStats (\<lambda>url. onePage (js ''Media Condition: Mint (M) $0 Ships From: US''))
     [Some (js ''a'')] False True =
     \<lparr>numForSale = 1, lowestPrice = None, medianPrice = None, scrapedTotal = Some 1,
      matchStats = [\<lparr>numForSale = 1, lowestPrice = None, medianPrice = None,
                     scrapedTotal = Some 1\<rparr>]\<rparr>"
  by (simp add: handleFilteredStats_def js_nonempty scrape_free_listing Let_def)

section \<open>Claims\<close>





text \<open>
  C5. \<open>tracklistContains\<close> is false when the normalized track name has fewer than two
  code units. For a normalized name of two or three code units it is true exactly when
  some entry of kind \<open>track\<close>, or of no kind, has a non-empty normalized title equal to
  the name. For a normalized name of four or more code units it is true exactly when for
  some such entry every whole word of one of title and name is a whole word of the other,
  on the \<open>normalize\<close> results or on the \<open>fuzzyNorm\<close> results. The whole words are those of
  \<open>wordSet\<close>, which is defined on the text and not by \<open>split\<close>.
\<close>

theorem tracklistContains_cases:
  "(length (normalize name) < 2 \<longrightarrow> \<not> tracklistContains tlist name) \<and>
   (2 \<le> length (normalize name) \<and> length (normalize name) \<le> 3 \<longrightarrow>
      (tracklistContains tlist name \<longleftrightarrow>
         (\<exists>t \<in> set (entriesOf tlist).
            (kind t = None \<or> kind t = Some [] \<or> kind t = Some (js ''track'')) \<and>
            normalize (title t) \<noteq> [] \<and> normalize (title t) = normalize name))) \<and>
   (4 \<le> length (normalize name) \<longrightarrow>
      (tracklistContains tlist name \<longleftrightarrow>
         (\<exists>t \<in> set (entriesOf tlist).
            (kind t = None \<or> kind t = Some [] \<or> kind t = Some (js ''track'')) \<and>
            normalize (title t) \<noteq> [] \<and>
            (wordSet (normalize name) \<subseteq> wordSet (normalize (title t)) \<or>
             wordSet (normalize (title t)) \<subseteq> wordSet (normalize name) \<or>
             wordSet (fuzzyNorm name) \<subseteq> wordSet (fuzzyNorm (title t)) \<or>
             wordSet (fuzzyNorm (title t)) \<subseteq> wordSet (fuzzyNorm name)))))"
proof -
  have k: "\<And>t. \<not> skippedKind t \<longleftrightarrow>
             (kind t = None \<or> kind t = Some [] \<or> kind t = Some (js ''track''))"
    by (auto simp: skippedKind_def split: option.splits)
  have e: "orEmpty name = [] \<Longrightarrow> length (normalize name) < 2"
    by (simp add: normalize_empty)
  have a: "length (normalize name) < 2 \<longrightarrow> \<not> tracklistContains tlist name"
    by (auto simp: tracklistContains_def Let_def split: option.splits)
  have b: "2 \<le> length (normalize name) \<and> length (normalize name) \<le> 3 \<longrightarrow>
      (tracklistContains tlist name \<longleftrightarrow>
         (\<exists>t \<in> set (entriesOf tlist).
            (kind t = None \<or> kind t = Some [] \<or> kind t = Some (js ''track'')) \<and>
            normalize (title t) \<noteq> [] \<and> normalize (title t) = normalize name))"
    using e by (cases tlist)
      (auto simp: tracklistContains_def entriesOf_def Let_def tracklistLoop_short k)
  have c: "4 \<le> length (normalize name) \<longrightarrow>
      (tracklistContains tlist name \<longleftrightarrow>
         (\<exists>t \<in> set (entriesOf tlist).
            (kind t = None \<or> kind t = Some [] \<or> kind t = Some (js ''track'')) \<and>
            normalize (title t) \<noteq> [] \<and>
            (wordSet (normalize name) \<subseteq> wordSet (normalize (title t)) \<or>
             wordSet (normalize (title t)) \<subseteq> wordSet (normalize name) \<or>
             wordSet (fuzzyNorm name) \<subseteq> wordSet (fuzzyNorm (title t)) \<or>
             wordSet (fuzzyNorm (title t)) \<subseteq> wordSet (fuzzyNorm name))))"
  proof (cases tlist)
    case None
    then show ?thesis by (simp add: tracklistContains_def entriesOf_def)
  next
    case (Some es)
    show ?thesis
    proof
      assume l: "4 \<le> length (normalize name)"
      with e have ne: "orEmpty name \<noteq> []" by fastforce
      from l have n: "normalize name \<noteq> []" "\<not> length (normalize name) < 2"
        "\<not> length (normalize name) \<le> 3" by auto
      show "tracklistContains tlist name \<longleftrightarrow>
         (\<exists>t \<in> set (entriesOf tlist).
            (kind t = None \<or> kind t = Some [] \<or> kind t = Some (js ''track'')) \<and>
            normalize (title t) \<noteq> [] \<and>
            (wordSet (normalize name) \<subseteq> wordSet (normalize (title t)) \<or>
             wordSet (normalize (title t)) \<subseteq> wordSet (normalize name) \<or>
             wordSet (fuzzyNorm name) \<subseteq> wordSet (fuzzyNorm (title t)) \<or>
             wordSet (fuzzyNorm (title t)) \<subseteq> wordSet (fuzzyNorm name)))"
      proof (cases "es = []")
        case True
        with Some show ?thesis by (simp add: tracklistContains_def entriesOf_def)
      next
        case False
        with Some ne n show ?thesis
          by (simp add: tracklistContains_def entriesOf_def Let_def tracklistLoop_long
              wordsContain_wordSet k)
      qed
    qed
  qed
  from a b c show ?thesis by blast
qed

lemmas match_eval = tracklistContains_def skippedKind_def wordsContain_def
  entriesOf_def wordSet_split Let_def
lemmas fuzzy_eval = fuzzyNorm_def replaceWord.simps matchWordAt_def nextIsWord_def isWordCh_def

lemma normalize_a: "normalize (Some (js ''a'')) = js ''a''"
  by (simp add: string_eval)
lemma normalize_Ok: "normalize (Some (js ''Ok'')) = js ''ok''"
  by (simp add: string_eval)
lemma normalize_OK: "normalize (Some (js ''OK'')) = js ''ok''"
  by (simp add: string_eval)
lemma normalize_Blue_Monday: "normalize (Some (js ''Blue Monday'')) = js ''blue monday''"
  by (simp add: string_eval)
lemma normalize_Remix:
  "normalize (Some (js ''Blue Monday (Remix)'')) = js ''blue monday remix''"
  by (simp add: string_eval)
lemma normalize_Bluebird:
  "normalize (Some (js ''Bluebird Mondays'')) = js ''bluebird mondays''"
  by (simp add: string_eval)
lemma normalize_Mid_Nite: "normalize (Some (js ''Mid Nite Train'')) = js ''mid nite train''"
  by (simp add: string_eval)
lemma normalize_Midnight: "normalize (Some (js ''Midnight Train'')) = js ''midnight train''"
  by (simp add: string_eval)
lemma fuzzyNorm_Blue_Monday: "fuzzyNorm (Some (js ''Blue Monday'')) = js ''blue monday''"
  by (simp add: string_eval fuzzy_eval)
lemma fuzzyNorm_Remix:
  "fuzzyNorm (Some (js ''Blue Monday (Remix)'')) = js ''blue monday remix''"
  by (simp add: string_eval fuzzy_eval)
lemma fuzzyNorm_Bluebird:
  "fuzzyNorm (Some (js ''Bluebird Mondays'')) = js ''bluebird mondays''"
  by (simp add: string_eval fuzzy_eval)
lemma fuzzyNorm_Mid_Nite: "fuzzyNorm (Some (js ''Mid Nite Train'')) = js ''midnigh train''"
  by (simp add: string_eval fuzzy_eval)
lemma fuzzyNorm_Midnight: "fuzzyNorm (Some (js ''Midnight Train'')) = js ''midnigh train''"
  by (simp add: string_eval fuzzy_eval)

lemma wordSet_values:
  "wordSet (js ''blue monday'') = {js ''blue'', js ''monday''}"
  "wordSet (js ''blue monday remix'') = {js ''blue'', js ''monday'', js ''remix''}"
  "wordSet (js ''bluebird mondays'') = {js ''bluebird'', js ''mondays''}"
  "wordSet (js ''mid nite train'') = {js ''mid'', js ''nite'', js ''train''}"
  "wordSet (js ''midnight train'') = {js ''midnight'', js ''train''}"
  "wordSet (js ''midnigh train'') = {js ''midnigh'', js ''train''}"
  by (simp_all add: wordSet_split js_def)

theorem tracklistContains_cases_witness:
  "length (normalize (Some (js ''a''))) < 2 \<and>
   \<not> tracklistContains (Some [\<lparr>kind = None, title = Some (js ''a'')\<rparr>]) (Some (js ''a'')) \<and>
   2 \<le> length (normalize (Some (js ''OK''))) \<and> length (normalize (Some (js ''OK''))) \<le> 3 \<and>
   tracklistContains
     (Some [\<lparr>kind = Some (js ''heading''), title = Some (js ''Ok'')\<rparr>,
            \<lparr>kind = None, title = Some (js ''Ok'')\<rparr>]) (Some (js ''OK'')) \<and>
   4 \<le> length (normalize (Some (js ''Blue Monday''))) \<and>
   wordSet (normalize (Some (js ''Blue Monday''))) = {js ''blue'', js ''monday''} \<and>
   wordSet (normalize (Some (js ''Blue Monday (Remix)''))) =
     {js ''blue'', js ''monday'', js ''remix''} \<and>
   tracklistContains
     (Some [\<lparr>kind = Some (js ''track''), title = Some (js ''Blue Monday (Remix)'')\<rparr>])
     (Some (js ''Blue Monday'')) \<and>
   \<not> tracklistContains
     (Some [\<lparr>kind = None, title = Some (js ''Bluebird Mondays'')\<rparr>])
     (Some (js ''Blue Monday'')) \<and>
   4 \<le> length (normalize (Some (js ''Mid Nite Train''))) \<and>
   \<not> wordSet (normalize (Some (js ''Midnight Train'')))
       \<subseteq> wordSet (normalize (Some (js ''Mid Nite Train''))) \<and>
   \<not> wordSet (normalize (Some (js ''Mid Nite Train'')))
       \<subseteq> wordSet (normalize (Some (js ''Midnight Train''))) \<and>
   tracklistContains
     (Some [\<lparr>kind = None, title = Some (js ''Midnight Train'')\<rparr>])
     (Some (js ''Mid Nite Train''))"
  using tracklistContains_cases
          [of "Some (js ''a'')" "Some [\<lparr>kind = None, title = Some (js ''a'')\<rparr>]"]
        tracklistContains_cases
          [of "Some (js ''OK'')"
              "Some [\<lparr>kind = Some (js ''heading''), title = Some (js ''Ok'')\<rparr>,
                     \<lparr>kind = None, title = Some (js ''Ok'')\<rparr>]"]
        tracklistContains_cases
          [of "Some (js ''Blue Monday'')"
              "Some [\<lparr>kind = Some (js ''track''), title = Some (js ''Blue Monday (Remix)'')\<rparr>]"]
        tracklistContains_cases
          [of "Some (js ''Blue Monday'')"
              "Some [\<lparr>kind = None, title = Some (js ''Bluebird Mondays'')\<rparr>]"]
        tracklistContains_cases
          [of "Some (js ''Mid Nite Train'')"
              "Some [\<lparr>kind = None, title = Some (js ''Midnight Train'')\<rparr>]"]
  unfolding entriesOf_def option.case list.set ball_simps bex_simps tracklistEntry.simps
    normalize_a normalize_Ok normalize_OK normalize_Blue_Monday normalize_Remix
    normalize_Bluebird normalize_Mid_Nite normalize_Midnight fuzzyNorm_Blue_Monday
    fuzzyNorm_Remix fuzzyNorm_Bluebird fuzzyNorm_Mid_Nite fuzzyNorm_Midnight wordSet_values
  by (simp add: js_def)

text \<open>
  C10. \<open>fuzzyNorm\<close> is idempotent: applied to its own result it returns that result.
  None of the words it writes (\<open>night\<close>, \<open>midnigh\<close>, \<open>the\<close>) is a word it replaces, and
  no two words that follow each other in its result are \<open>mid\<close> and \<open>night\<close>.
\<close>

theorem fuzzyNorm_idempotent: "fuzzyNorm (Some (fuzzyNorm s)) = fuzzyNorm s"
proof -
  have "normalized (normalize s)" by (rule normalize_normalized)
  then obtain ws where ws: "\<forall>w \<in> set ws. wordy w" and n: "normalize s = joinSp ws"
    using normalized_words by blast
  from n ws have f: "fuzzyNorm s = joinSp (fuzzyWords ws)" by (rule fuzzyNorm_words)
  from ws have fw: "\<forall>w \<in> set (fuzzyWords ws). wordy w" by (rule fuzzyWords_wordy)
  then have "normalized (joinSp (fuzzyWords ws))" by (rule words_normalized)
  then have "normalize (Some (joinSp (fuzzyWords ws))) = joinSp (fuzzyWords ws)"
    by (rule normalized_fixed)
  then have "fuzzyNorm (Some (joinSp (fuzzyWords ws))) = joinSp (fuzzyWords (fuzzyWords ws))"
    using fw by (rule fuzzyNorm_words)
  with f show ?thesis by (simp add: fuzzyWords_idem)
qed

text \<open>
  C4 (amended). When a pagination total was found and is greater than 0, \<open>listingsOnPage\<close>
  and \<open>matched\<close> do not exceed \<open>total\<close>. When no pagination pattern was found and at
  least one block is a listing, \<open>total\<close> equals \<open>listingsOnPage\<close>; without pagination
  \<open>listingsOnPage\<close> is the number of validated blocks. \<open>matched\<close> never exceeds
  \<open>listingsOnPage\<close>.
\<close>

theorem parseFilteredPage_counts:
  "(hasPagination html \<and> 0 < total (parseFilteredPage html us vg) \<longrightarrow>
      listingsOnPage (parseFilteredPage html us vg) \<le> total (parseFilteredPage html us vg) \<and>
      matched (parseFilteredPage html us vg) \<le> total (parseFilteredPage html us vg)) \<and>
   (\<not> hasPagination html \<and> 0 < listingsOnPage (parseFilteredPage html us vg) \<longrightarrow>
      total (parseFilteredPage html us vg) = listingsOnPage (parseFilteredPage html us vg)) \<and>
   (\<not> hasPagination html \<longrightarrow>
      listingsOnPage (parseFilteredPage html us vg) = length (listingBlocks html)) \<and>
   matched (parseFilteredPage html us vg) \<le> listingsOnPage (parseFilteredPage html us vg)"
proof -
  have "length (matchedBlocks us vg html) \<le> length (listingBlocks html)"
    by (simp add: matchedBlocks_def)
  then show ?thesis
    by (auto simp: parse_total parse_listings parse_matched)
qed

theorem parseFilteredPage_counts_witness:
  "hasPagination
     (js ''1 - 1 of 1 Media Condition: Mint (M) $5 Ships From: A Media Condition: Mint (M) $6 Ships From: B'') \<and>
   parseFilteredPage
     (js ''1 - 1 of 1 Media Condition: Mint (M) $5 Ships From: A Media Condition: Mint (M) $6 Ships From: B'')
     False False =
     \<lparr>total = 1, listingsOnPage = 1, matched = 1, prices = [5, 6], lowest = Some 5\<rparr> \<and>
   \<not> hasPagination (js ''Media Condition: Mint (M) $0.00 $5.00 Ships From: US'') \<and>
   parseFilteredPage (js ''Media Condition: Mint (M) $0.00 $5.00 Ships From: US'') False False =
     \<lparr>total = 1, listingsOnPage = 1, matched = 1, prices = [5], lowest = Some 5\<rparr> \<and>
   length (listingBlocks (js ''Media Condition: Mint (M) $0.00 $5.00 Ships From: US'')) = 1"
  using parseFilteredPage_counts
          [of "js ''1 - 1 of 1 Media Condition: Mint (M) $5 Ships From: A Media Condition: Mint (M) $6 Ships From: B''"
              False False]
        parseFilteredPage_counts
          [of "js ''Media Condition: Mint (M) $0.00 $5.00 Ships From: US''" False False]
  by (simp add: page_capped page_zero_first)

text \<open>
  As the claim words it, without the two guards, it fails: a pagination total of 0 caps
  nothing, and without pagination and without a listing \<open>total\<close> stays the number of
  markers.
\<close>

theorem parseFilteredPage_counts_counterexample:
  "hasPagination (js ''1 - 1 of 0 Media Condition: Mint (M) $5.00 Ships From: US'') \<and>
   \<not> (listingsOnPage
         (parseFilteredPage (js ''1 - 1 of 0 Media Condition: Mint (M) $5.00 Ships From: US'')
            False False)
       \<le> total
         (parseFilteredPage (js ''1 - 1 of 0 Media Condition: Mint (M) $5.00 Ships From: US'')
            False False)) \<and>
   \<not> hasPagination (js ''Media Condition: x'') \<and>
   total (parseFilteredPage (js ''Media Condition: x'') False False) \<noteq>
     listingsOnPage (parseFilteredPage (js ''Media Condition: x'') False False)"
  by (simp add: page_zero_total page_marker_only)

text \<open>
  C8. The claim is that a page without recognizable pagination and without a validated
  listing block gives zero counts. \<open>parseFilteredPage\<close> gives \<open>listingsOnPage = 0\<close>,
  \<open>matched = 0\<close>, no price and \<open>lowest = null\<close> there, but its \<open>total\<close> is the number of
  condition markers of the page: the count taken before the loop is replaced by
  \<open>listingsOnPage\<close> only when \<open>listingsOnPage\<close> is above 0. A page that holds one marker
  and nothing else has \<open>total = 1\<close>; a page with a sidebar fragment without amount and a
  fragment without \<open>Ships From:\<close>, both of which the loop discards as no listings, has
  \<open>total = 2\<close>.
\<close>

theorem parseFilteredPage_phantom_total:
  "\<not> hasPagination (js ''Media Condition: x'') \<and>
   \<not> noResults (js ''Media Condition: x'') \<and>
   listingBlocks (js ''Media Condition: x'') = [] \<and>
   parseFilteredPage (js ''Media Condition: x'') False False =
     \<lparr>total = 1, listingsOnPage = 0, matched = 0, prices = [], lowest = None\<rparr> \<and>
   \<not> hasPagination
     (js ''Media Condition: <a>Very Good Plus (VG+)</a> 5 Media Condition: Mint (M) $3.00'') \<and>
   \<not> noResults
     (js ''Media Condition: <a>Very Good Plus (VG+)</a> 5 Media Condition: Mint (M) $3.00'') \<and>
   listingBlocks
     (js ''Media Condition: <a>Very Good Plus (VG+)</a> 5 Media Condition: Mint (M) $3.00'') = [] \<and>
   parseFilteredPage
     (js ''Media Condition: <a>Very Good Plus (VG+)</a> 5 Media Condition: Mint (M) $3.00'')
     False False =
     \<lparr>total = 2, listingsOnPage = 0, matched = 0, prices = [], lowest = None\<rparr>"
  by (simp add: page_marker_only page_phantoms)

text \<open>
  C7 (amended). The prices of a page are, in the order of the blocks, the prices of the
  validated blocks that pass the active filters; a block without price adds none. The
  price of a block is the value of its first dollar amount that is not prefixed with \<open>+\<close>,
  is not part of an \<open>about $X\<close> annotation, is not immediately preceded by \<open>shipping\<close> (in
  any letter case, followed by at most 12 white-space code units) and whose text parses
  to a number greater than 0. On a page without pagination pattern that matches a
  no-results phrase and has no validated block, \<open>total\<close> is 0 and there is no price.
\<close>

theorem listing_price_first_accepted:
  "prices (parseFilteredPage html us vg) =
     List.map_filter claimedPrice (matchedBlocks us vg html) \<and>
   (claimedPrice block = Some v \<longleftrightarrow>
      (\<exists>p. eligible block p \<and> (\<forall>j < p. \<not> eligible block j) \<and>
           amountValue block p = Some v)) \<and>
   (\<not> hasPagination html \<and> noResults html \<and> listingBlocks html = [] \<longrightarrow>
      total (parseFilteredPage html us vg) = 0 \<and> prices (parseFilteredPage html us vg) = [])"
proof -
  have "(\<lambda>b. priceLoop b 0) = claimedPrice" by (rule ext) (rule priceLoop_claimed)
  then have a: "prices (parseFilteredPage html us vg) =
      List.map_filter claimedPrice (matchedBlocks us vg html)"
    by (simp add: parse_prices)
  have b: "\<not> hasPagination html \<and> noResults html \<and> listingBlocks html = [] \<longrightarrow>
      total (parseFilteredPage html us vg) = 0 \<and> prices (parseFilteredPage html us vg) = []"
    by (auto simp: parse_total parse_prices matchedBlocks_def headerTotal_def hasPagination_def
        List.map_filter_simps)
  from a b show ?thesis using claimedPrice_first [of block v] by blast
qed

theorem listing_price_first_accepted_witness:
  "matchedBlocks False False
     (js ''Media Condition: Mint (M) +$6.00 shipping $56.00 about $3.00 $0.00 $50.00 Ships From: US'') =
     [js '' Mint (M) +$6.00 shipping $56.00 about $3.00 $0.00 $50.00 Ships From: US''] \<and>
   claimedPrice
     (js '' Mint (M) +$6.00 shipping $56.00 about $3.00 $0.00 $50.00 Ships From: US'') = Some 50 \<and>
   parseFilteredPage
     (js ''Media Condition: Mint (M) +$6.00 shipping $56.00 about $3.00 $0.00 $50.00 Ships From: US'')
     False False =
     \<lparr>total = 1, listingsOnPage = 1, matched = 1, prices = [50], lowest = Some 50\<rparr> \<and>
   \<not> hasPagination (js ''No items for sale $1.01'') \<and>
   noResults (js ''No items for sale $1.01'') \<and>
   listingBlocks (js ''No items for sale $1.01'') = [] \<and>
   total (parseFilteredPage (js ''No items for sale $1.01'') False False) = 0 \<and>
   prices (parseFilteredPage (js ''No items for sale $1.01'') False False) = []"
  using listing_price_first_accepted
          [of "js ''Media Condition: Mint (M) +$6.00 shipping $56.00 about $3.00 $0.00 $50.00 Ships From: US''"
              False False
              "js '' Mint (M) +$6.00 shipping $56.00 about $3.00 $0.00 $50.00 Ships From: US''" 50]
        listing_price_first_accepted
          [of "js ''No items for sale $1.01''" False False
              "js '' Mint (M) +$6.00 shipping $56.00 about $3.00 $0.00 $50.00 Ships From: US''" 50]
  by (simp add: page_exclusions block_exclusions page_stray_amount)

text \<open>
  As the claim words it, it fails in five places. An amount of 0 is passed over for the
  next one. A validated block that fails the grade filter gives no price. A page with both
  a no-results phrase and a pagination text takes its \<open>total\<close> from the pagination. An
  amount that follows the word \<open>shipping\<close> behind 13 white-space code units is taken,
  because the test looks at the 20 code units before the amount. An amount that follows
  \<open>reshipping\<close> is passed over, because the test does not ask for the start of a word.
\<close>

theorem listing_price_first_accepted_counterexample:
  "listingBlocks (js ''Media Condition: Mint (M) $0.00 $5.00 Ships From: US'') =
     [js '' Mint (M) $0.00 $5.00 Ships From: US''] \<and>
   claimedAmount (js '' Mint (M) $0.00 $5.00 Ships From: US'') = Some 10 \<and>
   amountValue (js '' Mint (M) $0.00 $5.00 Ships From: US'') 10 = Some 0 \<and>
   prices (parseFilteredPage (js ''Media Condition: Mint (M) $0.00 $5.00 Ships From: US'')
             False False) = [5] \<and>
   listingBlocks (js ''Media Condition: Good (G) $5 Ships From: X'') =
     [js '' Good (G) $5 Ships From: X''] \<and>
   claimedAmount (js '' Good (G) $5 Ships From: X'') = Some 10 \<and>
   amountValue (js '' Good (G) $5 Ships From: X'') 10 = Some 5 \<and>
   prices (parseFilteredPage (js ''Media Condition: Good (G) $5 Ships From: X'') False True) = [] \<and>
   noResults (js ''No items for sale 1 - 2 of 3'') \<and>
   listingBlocks (js ''No items for sale 1 - 2 of 3'') = [] \<and>
   total (parseFilteredPage (js ''No items for sale 1 - 2 of 3'') False False) = 3 \<and>
   listingBlocks (js ''Media Condition: Mint (M) shipping             $56.00 $50.00 Ships From: US'') =
     [js '' Mint (M) shipping             $56.00 $50.00 Ships From: US''] \<and>
   claimedAmount (js '' Mint (M) shipping             $56.00 $50.00 Ships From: US'') = Some 38 \<and>
   amountValue (js '' Mint (M) shipping             $56.00 $50.00 Ships From: US'') 38 = Some 50 \<and>
   prices (parseFilteredPage
             (js ''Media Condition: Mint (M) shipping             $56.00 $50.00 Ships From: US'')
             False False) = [56] \<and>
   listingBlocks (js ''Media Condition: Mint (M) reshipping $56.00 $50.00 Ships From: US'') =
     [js '' Mint (M) reshipping $56.00 $50.00 Ships From: US''] \<and>
   claimedAmount (js '' Mint (M) reshipping $56.00 $50.00 Ships From: US'') = Some 21 \<and>
   amountValue (js '' Mint (M) reshipping $56.00 $50.00 Ships From: US'') 21 = Some 56 \<and>
   prices (parseFilteredPage
             (js ''Media Condition: Mint (M) reshipping $56.00 $50.00 Ships From: US'')
             False False) = [50]"
  by (simp add: page_zero_first block_zero_first page_good_grade block_good_grade
      page_no_results_paginated page_far_shipping block_far_shipping page_reshipping
      block_reshipping)

text \<open>
  C1. The claim is that amounts in other currencies are converted to dollars with a rate
  table. This \<open>parseFilteredPage\<close> takes no rate table and its amount pattern knows the
  dollar sign only: on the page of the repository's own test a listing priced in euros
  gets no price at all, and \<open>CA$30.00\<close> is read as 30 dollars.
\<close>

theorem parseFilteredPage_foreign_amounts:
  "prices (parseFilteredPage
     (js ''1 - 25 of 5 Media Condition: Very Good Plus (VG+) Sleeve Condition: VG '' @
      8364 # js ''25.00 about $28.12 Ships From: Germany'') False False) = [] \<and>
   prices (parseFilteredPage
     (js ''1 - 25 of 5 Media Condition: Very Good Plus (VG+) Sleeve Condition: VG CA$30.00 Ships From: Canada'')
     False False) = [30]"
  by (simp add: page_euro_only page_canadian)

text \<open>
  C2. The claim is that both aggregations take the median over the pooled prices of all
  listings. \<open>buildResult\<close> does (\<open>buildResult_pooled_median\<close>); \<open>handleFilteredStats\<close> takes
  the median of the medians of the matches. With one match listing at 1 and 2 and another
  at 3 it answers 9/4, where the pooled median, and \<open>buildResult\<close> on the same pages, give
  2.
\<close>

theorem handleFilteredStats_median_of_medians:
  "medianPrice (handleFilteredStats twoMatches [Some (js ''a''), Some (js ''b'')] False False) =
     Some (9 / 4) \<and>
   computeMedian (sort
     (listingPrices (twoMatches (sortedUrl (js ''a'')) 1) False False @
      listingPrices (twoMatches (sortedUrl (js ''b'')) 1) False False)) = Some 2 \<and>
   medianPrice (buildResult [Some (twoMatches (sortedUrl (js ''a'')) 1),
                             Some (twoMatches (sortedUrl (js ''b'')) 1)]) = Some 2"
proof -
  have a: "medianPrice (handleFilteredStats twoMatches [Some (js ''a''), Some (js ''b'')] False False) =
     Some (9 / 4)"
    by (simp add: handleFilteredStats_def js_nonempty twoMatches_a twoMatches_b
        scrape_two_listings scrape_one_listing computeMedian_def Let_def)
  have b: "computeMedian (sort
     (listingPrices (twoMatches (sortedUrl (js ''a'')) 1) False False @
      listingPrices (twoMatches (sortedUrl (js ''b'')) 1) False False)) = Some 2"
    by (simp add: twoMatches_a twoMatches_b listingPrices_def onePage_def page_two_listings
        page_one_listing computeMedian_def)
  have c: "medianPrice (buildResult [Some (twoMatches (sortedUrl (js ''a'')) 1),
                             Some (twoMatches (sortedUrl (js ''b'')) 1)]) = Some 2"
    using b by (simp add: buildResult_pooled_median)
  from a b c show ?thesis by simp
qed

text \<open>
  C3 (amended). With the VG+ filter on and a filtered count above zero, the lowest and the
  median price shown are the freshly scraped ones whenever the scrape has them, and the
  cached aggregate's only where the scraped value is \<open>null\<close>. Where the filtered count
  of a scope is zero, for the whole query or for one match, no price is shown for it.
\<close>

theorem showFilteredData_prices:
  "(vg \<and> 0 < numForSale fData \<longrightarrow>
      lowestPrice (stats (showFilteredData vg fData g matches)) =
        orElse (lowestPrice fData) (lowestPrice g) \<and>
      medianPrice (stats (showFilteredData vg fData g matches)) =
        orElse (medianPrice fData) (medianPrice g)) \<and>
   (vg \<and> 0 < numForSale fData \<and> lowestPrice fData \<noteq> None \<longrightarrow>
      lowestPrice (stats (showFilteredData vg fData g matches)) = lowestPrice fData) \<and>
   (vg \<and> 0 < numForSale fData \<and> medianPrice fData \<noteq> None \<longrightarrow>
      medianPrice (stats (showFilteredData vg fData g matches)) = medianPrice fData) \<and>
   (numForSale fData = 0 \<longrightarrow>
      lowestPrice (stats (showFilteredData vg fData g matches)) = None \<and>
      medianPrice (stats (showFilteredData vg fData g matches)) = None) \<and>
   (i < length (rows (showFilteredData vg fData g matches)) \<and>
    (i < length (matchStats fData) \<longrightarrow> numForSale (matchStats fData ! i) = 0) \<longrightarrow>
      snd (rows (showFilteredData vg fData g matches) ! i) = None)"
proof -
  have c: "0 < numForSale fData \<Longrightarrow> 0 < cappedCount (numForSale fData) (numForSale g)"
    using cappedCount_zero [of "numForSale fData" "numForSale g"] by simp
  have a: "vg \<and> 0 < numForSale fData \<longrightarrow>
      lowestPrice (stats (showFilteredData vg fData g matches)) =
        orElse (lowestPrice fData) (lowestPrice g) \<and>
      medianPrice (stats (showFilteredData vg fData g matches)) =
        orElse (medianPrice fData) (medianPrice g)"
    using c by (simp add: showFilteredData_def displayedStats_def Let_def)
  have z: "numForSale fData = 0 \<longrightarrow>
      lowestPrice (stats (showFilteredData vg fData g matches)) = None \<and>
      medianPrice (stats (showFilteredData vg fData g matches)) = None"
  proof
    assume "numForSale fData = 0"
    then have "cappedCount (numForSale fData) (numForSale g) = 0"
      by (simp only: cappedCount_zero)
    then show "lowestPrice (stats (showFilteredData vg fData g matches)) = None \<and>
      medianPrice (stats (showFilteredData vg fData g matches)) = None"
      by (simp add: showFilteredData_def displayedStats_def Let_def)
  qed
  have r: "i < length (rows (showFilteredData vg fData g matches)) \<and>
    (i < length (matchStats fData) \<longrightarrow> numForSale (matchStats fData ! i) = 0) \<longrightarrow>
      snd (rows (showFilteredData vg fData g matches) ! i) = None"
    by (auto simp: showFilteredData_def displayedMatch_def entryAt_def Let_def cappedCount_zero
        split: if_splits)
  from a z r show ?thesis by (auto simp: orElse_def)
qed

theorem showFilteredData_prices_witness:
  "lowestPrice
     (stats (showFilteredData True
        \<lparr>numForSale = 10, lowestPrice = Some (327 / 100), medianPrice = Some 6,
         scrapedTotal = Some 10,
         matchStats = [\<lparr>numForSale = 0, lowestPrice = None, medianPrice = None,
                        scrapedTotal = Some 4\<rparr>,
                       \<lparr>numForSale = 10, lowestPrice = Some (327 / 100), medianPrice = Some 6,
                        scrapedTotal = Some 6\<rparr>]\<rparr>
        \<lparr>numForSale = 10, lowestPrice = Some (235 / 100), medianPrice = Some 5\<rparr>
        [\<lparr>numForSale = 4, lowestPrice = Some (235 / 100), medianPrice = Some 3\<rparr>,
         \<lparr>numForSale = 6, lowestPrice = Some 4, medianPrice = Some 6\<rparr>])) = Some (327 / 100) \<and>
   rows (showFilteredData True
        \<lparr>numForSale = 10, lowestPrice = Some (327 / 100), medianPrice = Some 6,
         scrapedTotal = Some 10,
         matchStats = [\<lparr>numForSale = 0, lowestPrice = None, medianPrice = None,
                        scrapedTotal = Some 4\<rparr>,
                       \<lparr>numForSale = 10, lowestPrice = Some (327 / 100), medianPrice = Some 6,
                        scrapedTotal = Some 6\<rparr>]\<rparr>
        \<lparr>numForSale = 10, lowestPrice = Some (235 / 100), medianPrice = Some 5\<rparr>
        [\<lparr>numForSale = 4, lowestPrice = Some (235 / 100), medianPrice = Some 3\<rparr>,
         \<lparr>numForSale = 6, lowestPrice = Some 4, medianPrice = Some 6\<rparr>]) =
     [(0, None), (6, Some (327 / 100))] \<and>
   stats (showFilteredData True
        \<lparr>numForSale = 0, lowestPrice = None, medianPrice = None, scrapedTotal = Some 5,
         matchStats = []\<rparr>
        \<lparr>numForSale = 5, lowestPrice = Some 12, medianPrice = Some 18\<rparr> []) =
     \<lparr>numForSale = 0, lowestPrice = None, medianPrice = None\<rparr>"
  using showFilteredData_prices
    [of True
        "\<lparr>numForSale = 10, lowestPrice = Some (327 / 100), medianPrice = Some 6,
         scrapedTotal = Some 10,
         matchStats = [\<lparr>numForSale = 0, lowestPrice = None, medianPrice = None,
                        scrapedTotal = Some 4\<rparr>,
                       \<lparr>numForSale = 10, lowestPrice = Some (327 / 100), medianPrice = Some 6,
                        scrapedTotal = Some 6\<rparr>]\<rparr>"
        "\<lparr>numForSale = 10, lowestPrice = Some (235 / 100), medianPrice = Some 5\<rparr>"
        "[\<lparr>numForSale = 4, lowestPrice = Some (235 / 100), medianPrice = Some 3\<rparr>,
         \<lparr>numForSale = 6, lowestPrice = Some 4, medianPrice = Some 6\<rparr>]" 0]
    showFilteredData_prices
    [of True
        "\<lparr>numForSale = 0, lowestPrice = None, medianPrice = None, scrapedTotal = Some 5,
         matchStats = []\<rparr>"
        "\<lparr>numForSale = 5, lowestPrice = Some 12, medianPrice = Some 18\<rparr>" "[]" 0]
  by (simp add: showFilteredData_def displayedStats_def displayedMatch_def entryAt_def
      cappedCount_def orElse_def Let_def upt_conv_Cons)

text \<open>
  As the claim words it, it fails where the scrape finds a listing and no price: with the
  VG+ filter on, one listing priced at 0 on the page gives a filtered count of 1 and no
  scraped price, and the popup shows the cached aggregate's lowest and median price.
\<close>

theorem showFilteredData_prices_counterexample:
  "numForSale
     (handleFilteredStats (\<lambda>url. onePage (js ''Media Condition: Mint (M) $0 Ships From: US''))
        [Some (js ''a'')] False True) = 1 \<and>
   lowestPrice
     (handleFilteredStats (\<lambda>url. onePage (js ''Media Condition: Mint (M) $0 Ships From: US''))
        [Some (js ''a'')] False True) = None \<and>
   lowestPrice
     (stats (showFilteredData True
        (handleFilteredStats (\<lambda>url. onePage (js ''Media Condition: Mint (M) $0 Ships From: US''))
           [Some (js ''a'')] False True)
        \<lparr>numForSale = 8, lowestPrice = Some 12, medianPrice = Some 18\<rparr> [])) = Some 12 \<and>
   medianPrice
     (stats (showFilteredData True
        (handleFilteredStats (\<lambda>url. onePage (js ''Media Condition: Mint (M) $0 Ships From: US''))
           [Some (js ''a'')] False True)
        \<lparr>numForSale = 8, lowestPrice = Some 12, medianPrice = Some 18\<rparr> [])) = Some 18"
  by (simp add: filtered_free_listing showFilteredData_def displayedStats_def cappedCount_def
      orElse_def Let_def)

end
